theory Spec2Isabelle
  imports Main "HOL-Library.Multiset"
begin

section \<open>Environment (environment.py)\<close>

text \<open>
  \<open>Position\<close> is the NamedTuple \<open>(row, col)\<close> of Python integers; equality is
  field-wise. The grid constants are those of the module.
\<close>

datatype Position = Position (row: int) (col: int)

definition GRID_WIDTH :: int where
  "GRID_WIDTH = 5"

definition GRID_HEIGHT :: int where
  "GRID_HEIGHT = 2"

datatype RobotStatus = IDLE | MOVING

record Robot =
  robot_id :: int
  robot_position :: Position
  robot_path :: "Position list"
  path_index :: int
  priority :: int
  status :: RobotStatus
  is_waiting :: bool

definition is_valid_position :: "Position \<Rightarrow> bool" where
  "is_valid_position pos =
     (0 \<le> row pos \<and> row pos < GRID_HEIGHT \<and> 0 \<le> col pos \<and> col pos < GRID_WIDTH)"

text \<open>
  \<open>Environment.get_valid_moves\<close>: the list \<open>moves\<close> in the order the source appends to
  it. A position whose row is neither 1 nor 0 has no move at all.
\<close>

definition get_valid_moves :: "Position \<Rightarrow> (Position \<times> int) list" where
  "get_valid_moves pos =
     (if row pos = 1 then
        (if col pos > 0 then [(Position 1 (col pos - 1), 1)] else []) @
        (if col pos < GRID_WIDTH - 1 then [(Position 1 (col pos + 1), 1)] else []) @
        [(Position 0 (col pos), 1), (Position 1 (col pos), 1)]
      else if row pos = 0 then
        [(Position 1 (col pos), 1), (Position 0 (col pos), 1)]
      else [])"

definition manhattan_distance :: "Position \<Rightarrow> Position \<Rightarrow> int" where
  "manhattan_distance pos1 pos2 = \<bar>row pos1 - row pos2\<bar> + \<bar>col pos1 - col pos2\<bar>"

definition heuristic :: "Position \<Rightarrow> Position \<Rightarrow> int" where
  "heuristic current goal =
     (if row goal = 0 then
        (let corridor_steps = \<bar>col current - col goal\<bar>;
             room_steps = (if row current = 0 then 1 else 2)
         in corridor_steps + room_steps)
      else manhattan_distance current goal)"

section \<open>Search nodes and the open set (solver.py, heapq)\<close>

text \<open>
  \<open>AStarNode\<close>: the time of a node starts at 0 and is only ever incremented, so it is a
  natural number; the costs are declared \<open>float\<close> in the source but only ever hold the
  integers produced by \<open>heuristic\<close> and the move costs.
\<close>

record AStarNode =
  position :: Position
  time :: nat
  g_cost :: int
  f_cost :: int
  path :: "Position list"

text \<open>\<open>AStarNode.__lt__\<close> compares the f-cost and nothing else.\<close>

definition lt :: "AStarNode \<Rightarrow> AStarNode \<Rightarrow> bool" where
  "lt self other = (f_cost self < f_cost other)"

text \<open>
  The open set is a Python list managed by the standard library's \<open>heapq\<close>, whose
  comparisons are calls of \<open>__lt__\<close>. The four functions below transcribe
  \<open>heapq._siftdown\<close>, \<open>heapq._siftup\<close>, \<open>heapq.heappush\<close> and \<open>heapq.heappop\<close>;
  the item being moved is carried as \<open>newitem\<close> while its slot is a hole, as in the
  library.
\<close>

function siftdown_loop :: "AStarNode list \<Rightarrow> nat \<Rightarrow> nat \<Rightarrow> AStarNode \<Rightarrow> AStarNode list" where
  "siftdown_loop heap startpos pos newitem =
     (if pos > startpos then
        (let parentpos = (pos - 1) div 2;
             parent = heap ! parentpos
         in if lt newitem parent
            then siftdown_loop (heap[pos := parent]) startpos parentpos newitem
            else heap[pos := newitem])
      else heap[pos := newitem])"
  by pat_completeness auto
termination
  by (relation "measure (\<lambda>(heap, startpos, pos, newitem). pos)") auto

declare siftdown_loop.simps [simp del]

definition siftdown :: "AStarNode list \<Rightarrow> nat \<Rightarrow> nat \<Rightarrow> AStarNode list" where
  "siftdown heap startpos pos = siftdown_loop heap startpos pos (heap ! pos)"

function siftup_loop :: "AStarNode list \<Rightarrow> nat \<Rightarrow> nat \<Rightarrow> nat \<Rightarrow> AStarNode list \<times> nat" where
  "siftup_loop heap endpos pos childpos =
     (if childpos < endpos then
        (let rightpos = childpos + 1;
             childpos1 = (if rightpos < endpos \<and> \<not> lt (heap ! childpos) (heap ! rightpos)
                          then rightpos else childpos)
         in siftup_loop (heap[pos := heap ! childpos1]) endpos childpos1 (2 * childpos1 + 1))
      else (heap, pos))"
  by pat_completeness auto
termination
  by (relation "measure (\<lambda>(heap, endpos, pos, childpos). endpos - childpos)") auto

declare siftup_loop.simps [simp del]

definition siftup :: "AStarNode list \<Rightarrow> nat \<Rightarrow> AStarNode list" where
  "siftup heap pos =
     (let endpos = length heap;
          startpos = pos;
          newitem = heap ! pos;
          (heap1, pos1) = siftup_loop heap endpos pos (2 * pos + 1)
      in siftdown (heap1[pos1 := newitem]) startpos pos1)"

definition heappush :: "AStarNode list \<Rightarrow> AStarNode \<Rightarrow> AStarNode list" where
  "heappush heap item = siftdown (heap @ [item]) 0 (length (heap @ [item]) - 1)"

text \<open>\<open>heappop\<close> raises IndexError on the empty list: \<open>None\<close>.\<close>

definition heappop :: "AStarNode list \<Rightarrow> (AStarNode \<times> AStarNode list) option" where
  "heappop heap =
     (if heap = [] then None
      else (let lastelt = last heap;
                heap1 = butlast heap
            in if heap1 \<noteq> []
               then (let returnitem = heap1 ! 0
                     in Some (returnitem, siftup (heap1[0 := lastelt]) 0))
               else Some (lastelt, heap1)))"

section \<open>Space-time search (solver.py, SpaceTimeAStar)\<close>

text \<open>
  \<open>_has_collision\<close>: the loop over the other paths returns at the first path that
  yields a vertex or an edge collision. It is only called with \<open>next_time = time + 1\<close>,
  a positive number, so the indices are in range whenever the guards hold.
\<close>

definition path_collides :: "Position \<Rightarrow> Position \<Rightarrow> nat \<Rightarrow> Position list \<Rightarrow> bool" where
  "path_collides current_pos next_pos next_time other_path =
     ((next_time < length other_path \<and> other_path ! next_time = next_pos) \<or>
      (next_time > 0 \<and> next_time - 1 < length other_path \<and> next_time < length other_path \<and>
       (let other_prev = other_path ! (next_time - 1);
            other_next = other_path ! next_time
        in current_pos = other_next \<and> next_pos = other_prev)))"

fun has_collision :: "Position \<Rightarrow> Position \<Rightarrow> nat \<Rightarrow> Position list list \<Rightarrow> bool" where
  "has_collision current_pos next_pos next_time [] = False"
| "has_collision current_pos next_pos next_time (other_path # other_robot_paths) =
     (if path_collides current_pos next_pos next_time other_path then True
      else has_collision current_pos next_pos next_time other_robot_paths)"

text \<open>
  The body of the \<open>for\<close> loop over the valid moves of the current node: a move is skipped
  on a collision or when its state is closed, and pushed otherwise.
\<close>

fun expand :: "Position \<Rightarrow> Position list list \<Rightarrow> (Position \<times> nat) set \<Rightarrow> AStarNode \<Rightarrow>
    (Position \<times> int) list \<Rightarrow> AStarNode list \<Rightarrow> AStarNode list" where
  "expand goal others closed_set current [] open_set = open_set"
| "expand goal others closed_set current ((next_pos, move_cost) # moves) open_set =
     (let next_time = time current + 1
      in if has_collision (position current) next_pos next_time others
         then expand goal others closed_set current moves open_set
         else if (next_pos, next_time) \<in> closed_set
         then expand goal others closed_set current moves open_set
         else (let g = g_cost current + move_cost;
                   h = heuristic next_pos goal;
                   f = g + h
               in expand goal others closed_set current moves
                    (heappush open_set
                       \<lparr>position = next_pos, time = next_time, g_cost = g, f_cost = f,
                        path = path current @ [position current]\<rparr>)))"

section \<open>The heap operations keep the multiset of nodes\<close>

lemma length_siftdown_loop [simp]: "length (siftdown_loop heap startpos pos newitem) = length heap"
  by (induction heap startpos pos newitem rule: siftdown_loop.induct)
     (subst siftdown_loop.simps, simp add: Let_def)

lemma mset_siftdown_loop:
  "pos < length heap \<Longrightarrow> mset (siftdown_loop heap startpos pos newitem) = mset (heap[pos := newitem])"
proof (induction heap startpos pos newitem rule: siftdown_loop.induct)
  case (1 heap startpos pos newitem)
  show ?case
  proof (cases "pos > startpos \<and> lt newitem (heap ! ((pos - 1) div 2))")
    case True
    define pp where "pp = (pos - 1) div 2"
    have pp: "pp < pos" "pp < length heap" using True "1.prems" by (auto simp: pp_def)
    have "mset (siftdown_loop heap startpos pos newitem)
          = mset (siftdown_loop (heap[pos := heap ! pp]) startpos pp newitem)"
      using True by (subst siftdown_loop.simps) (simp add: Let_def pp_def)
    also have "\<dots> = mset (heap[pos := heap ! pp, pp := newitem])"
      using "1.IH"[OF _ refl refl, of ] True pp by (simp add: pp_def)
    also have "\<dots> = mset (heap[pos := newitem])"
      using pp "1.prems" by (simp add: mset_update nth_list_update)
    finally show ?thesis .
  next
    case False
    then show ?thesis by (subst siftdown_loop.simps) (auto simp: Let_def)
  qed
qed

lemma mset_siftdown: "pos < length heap \<Longrightarrow> mset (siftdown heap startpos pos) = mset heap"
  by (simp add: siftdown_def mset_siftdown_loop)

lemma mset_heappush: "mset (heappush heap item) = add_mset item (mset heap)"
  by (simp add: heappush_def mset_siftdown)

lemma siftup_loop_props:
  "pos < length heap \<Longrightarrow> endpos = length heap \<Longrightarrow> pos < childpos \<Longrightarrow>
   siftup_loop heap endpos pos childpos = (heap1, pos1) \<Longrightarrow>
   length heap1 = length heap \<and> pos1 < length heap \<and>
   mset (heap1[pos1 := x]) = mset (heap[pos := x])"
proof (induction heap endpos pos childpos arbitrary: heap1 pos1 rule: siftup_loop.induct)
  case (1 heap endpos pos childpos)
  show ?case
  proof (cases "childpos < endpos")
    case True
    define c1 where "c1 = (if childpos + 1 < endpos \<and> \<not> lt (heap ! childpos) (heap ! (childpos + 1))
                          then childpos + 1 else childpos)"
    have c1: "c1 < length heap" "pos < c1" using True "1.prems" by (auto simp: c1_def)
    have "siftup_loop heap endpos pos childpos =
          siftup_loop (heap[pos := heap ! c1]) endpos c1 (2 * c1 + 1)"
      by (subst siftup_loop.simps) (simp only: True if_True Let_def c1_def)
    then have eq: "siftup_loop (heap[pos := heap ! c1]) endpos c1 (2 * c1 + 1) = (heap1, pos1)"
      using "1.prems"(4) by simp
    have "length heap1 = length (heap[pos := heap ! c1]) \<and> pos1 < length (heap[pos := heap ! c1]) \<and>
          mset (heap1[pos1 := x]) = mset (heap[pos := heap ! c1, c1 := x])"
    proof (rule "1.IH"[OF True refl refl, folded c1_def])
      show "c1 < length (heap[pos := heap ! c1])" using c1 by simp
      show "endpos = length (heap[pos := heap ! c1])" using "1.prems" by simp
      show "c1 < 2 * c1 + 1" by simp
      show "siftup_loop (heap[pos := heap ! c1]) endpos c1 (2 * c1 + 1) = (heap1, pos1)" by (rule eq)
    qed
    moreover have "mset (heap[pos := heap ! c1, c1 := x]) = mset (heap[pos := x])"
      using c1 "1.prems" by (simp add: mset_update nth_list_update)
    ultimately show ?thesis by simp
  next
    case False
    then show ?thesis using "1.prems" by (subst (asm) siftup_loop.simps) auto
  qed
qed

lemma mset_siftup: "pos < length heap \<Longrightarrow> mset (siftup heap pos) = mset heap"
proof -
  assume p: "pos < length heap"
  obtain heap1 pos1 where sl: "siftup_loop heap (length heap) pos (2 * pos + 1) = (heap1, pos1)"
    by (cases "siftup_loop heap (length heap) pos (2 * pos + 1)")
  from siftup_loop_props[OF p refl _ sl, of "heap ! pos"]
  have "length heap1 = length heap" "pos1 < length heap"
       "mset (heap1[pos1 := heap ! pos]) = mset heap" by simp_all
  then show ?thesis using sl by (simp add: siftup_def Let_def mset_siftdown)
qed

lemma mset_heappop:
  "heappop heap = Some (item, rest) \<Longrightarrow> mset heap = add_mset item (mset rest)"
proof -
  assume hp: "heappop heap = Some (item, rest)"
  then have ne: "heap \<noteq> []" by (auto simp: heappop_def)
  then have sn: "heap = butlast heap @ [last heap]" by simp
  show ?thesis
  proof (cases "butlast heap = []")
    case True
    with hp ne sn show ?thesis by (auto simp: heappop_def Let_def)
  next
    case False
    then have pos: "0 < length (butlast heap)" by (cases "butlast heap") simp_all
    from hp ne False have it: "item = butlast heap ! 0"
      and rs: "rest = siftup ((butlast heap)[0 := last heap]) 0"
      by (auto simp: heappop_def Let_def)
    have "mset rest = mset ((butlast heap)[0 := last heap])"
      using pos by (simp add: rs mset_siftup)
    also have "\<dots> = add_mset (last heap) (mset (butlast heap) - {#item#})"
      using pos by (simp add: mset_update it)
    finally have "add_mset item (mset rest) = add_mset (last heap) (mset (butlast heap))"
      using pos it by (simp add: nth_mem)
    also have "\<dots> = mset heap" by (subst (2) sn) simp
    finally show ?thesis by simp
  qed
qed

lemma heappop_None: "heappop heap = None \<longleftrightarrow> heap = []"
  by (auto simp: heappop_def Let_def)

section \<open>The search loop and its termination\<close>

text \<open>
  The \<open>while open_set\<close> loop of \<open>find_path\<close>. It always terminates: give a node at time
  \<open>t\<close> the weight \<open>5 ^ (max_time - t)\<close>; an iteration removes the popped node and pushes at
  most four successors (one per valid move) of a fifth of its weight each, and pushes
  nothing once the time has reached \<open>max_time\<close>, so the total weight of the open set
  strictly decreases.
\<close>

definition node_weight :: "int \<Rightarrow> AStarNode \<Rightarrow> nat" where
  "node_weight max_time n = 5 ^ (nat max_time - time n)"

definition open_weight :: "int \<Rightarrow> AStarNode list \<Rightarrow> nat" where
  "open_weight max_time open_set = sum_mset (image_mset (node_weight max_time) (mset open_set))"

lemma open_weight_heappush:
  "open_weight m (heappush open_set n) = node_weight m n + open_weight m open_set"
  by (simp add: open_weight_def mset_heappush)

lemma open_weight_heappop:
  "heappop open_set = Some (n, rest) \<Longrightarrow> open_weight m open_set = node_weight m n + open_weight m rest"
  by (drule mset_heappop) (simp add: open_weight_def)

lemma open_weight_expand:
  "open_weight m (expand goal others closed_set current moves open_set)
   \<le> length moves * 5 ^ (nat m - (time current + 1)) + open_weight m open_set"
proof (induction moves arbitrary: open_set)
  case Nil
  then show ?case by simp
next
  case (Cons mv moves)
  obtain next_pos move_cost where mv: "mv = (next_pos, move_cost)" by (cases mv)
  show ?case
    using Cons.IH[of open_set]
      Cons.IH[of "heappush open_set
                       \<lparr>position = next_pos, time = time current + 1, g_cost = g_cost current + move_cost,
                        f_cost = g_cost current + move_cost + heuristic next_pos goal,
                        path = path current @ [position current]\<rparr>"]
    by (simp add: mv Let_def open_weight_heappush node_weight_def)
qed

lemma length_get_valid_moves: "length (get_valid_moves pos) \<le> 4"
  by (simp add: get_valid_moves_def)

lemma open_weight_expand_less:
  assumes pop: "heappop open_set = Some (current, rest)" and t: "int (time current) < max_time"
  shows "open_weight max_time (expand goal others closed_set current (get_valid_moves (position current)) rest)
         < open_weight max_time open_set"
proof -
  let ?k = "nat max_time - (time current + 1)"
  have "nat max_time - time current = Suc ?k" using t by linarith
  then have w: "node_weight max_time current = 5 * 5 ^ ?k" by (simp add: node_weight_def)
  have "length (get_valid_moves (position current)) * 5 ^ ?k \<le> 4 * (5::nat) ^ ?k"
    using length_get_valid_moves by (rule mult_le_mono1)
  then have "open_weight max_time (expand goal others closed_set current (get_valid_moves (position current)) rest)
        \<le> 4 * 5 ^ ?k + open_weight max_time rest"
    using open_weight_expand[of max_time goal others closed_set current "get_valid_moves (position current)" rest]
    by linarith
  also have "\<dots> < node_weight max_time current + open_weight max_time rest" by (simp add: w)
  also have "\<dots> = open_weight max_time open_set" using open_weight_heappop[OF pop] by simp
  finally show ?thesis .
qed

lemma open_weight_pop_less:
  assumes pop: "heappop open_set = Some (current, rest)"
  shows "open_weight max_time rest < open_weight max_time open_set"
  using open_weight_heappop[OF pop, of max_time] by (simp add: node_weight_def)

function find_path_loop :: "Position \<Rightarrow> Position list list \<Rightarrow> int \<Rightarrow> AStarNode list \<Rightarrow>
    (Position \<times> nat) set \<Rightarrow> Position list" where
  "find_path_loop goal others max_time open_set closed_set =
     (case heappop open_set of
        None \<Rightarrow> []
      | Some (current, open1) \<Rightarrow>
          if position current = goal then path current @ [position current]
          else if (position current, time current) \<in> closed_set
          then find_path_loop goal others max_time open1 closed_set
          else (let closed1 = insert (position current, time current) closed_set
                in if int (time current) \<ge> max_time
                   then find_path_loop goal others max_time open1 closed1
                   else find_path_loop goal others max_time
                          (expand goal others closed1 current (get_valid_moves (position current)) open1)
                          closed1))"
  by pat_completeness auto
termination
proof (relation "measure (\<lambda>(goal, others, max_time, open_set, closed_set). open_weight max_time open_set)")
  show "wf (measure (\<lambda>(goal, others, max_time, open_set, closed_set). open_weight max_time open_set))"
    by simp
qed (auto simp: open_weight_pop_less open_weight_expand_less)

declare find_path_loop.simps [simp del]

definition find_path :: "Position \<Rightarrow> Position \<Rightarrow> Position list list option \<Rightarrow> int \<Rightarrow> Position list" where
  "find_path start goal other_robot_paths max_time =
     (let others = (case other_robot_paths of None \<Rightarrow> [] | Some ps \<Rightarrow> ps);
          open_set = heappush []
            \<lparr>position = start, time = 0, g_cost = 0, f_cost = heuristic start goal, path = []\<rparr>
      in find_path_loop goal others max_time open_set {})"

section \<open>Prioritized planning (solver.py, MAPFSolver)\<close>

text \<open>
  The dictionaries \<open>goals\<close> and \<open>paths\<close> are maps keyed by robot id. \<open>plan_robot\<close> is the
  body of the \<open>for robot in sorted_robots\<close> loop, on the pair \<open>(paths, robot_paths_list)\<close>:
  a robot without a goal is skipped; a found path is stored and appended to the list the
  later searches avoid; when the search returns the empty list the robot is given the
  one-element path of its own position, which is not appended. The search is called
  with its default \<open>max_time = 50\<close>.
\<close>

definition plan_robot :: "(int \<rightharpoonup> Position) \<Rightarrow> (int \<rightharpoonup> Position list) \<times> Position list list \<Rightarrow>
    Robot \<Rightarrow> (int \<rightharpoonup> Position list) \<times> Position list list" where
  "plan_robot goals st robot =
     (case st of (paths, robot_paths_list) \<Rightarrow>
        (case goals (robot_id robot) of
           None \<Rightarrow> (paths, robot_paths_list)
         | Some goal \<Rightarrow>
             (let path = find_path (robot_position robot) goal (Some robot_paths_list) 50
              in if path \<noteq> []
                 then (paths(robot_id robot \<mapsto> path), robot_paths_list @ [path])
                 else (paths(robot_id robot \<mapsto> [robot_position robot]), robot_paths_list))))"

text \<open>
  \<open>sorted(robots, key=lambda r: r.priority)\<close> is a stable sort by priority, as is
  \<open>sort_key\<close>.
\<close>

definition solve_multi_robot_path :: "Robot list \<Rightarrow> (int \<rightharpoonup> Position) \<Rightarrow> (int \<rightharpoonup> Position list)" where
  "solve_multi_robot_path robots goals =
     (let sorted_robots = sort_key priority robots
      in fst (foldl (plan_robot goals) (Map.empty, []) sorted_robots))"

definition find_single_robot_path :: "Robot \<Rightarrow> Position \<Rightarrow> Position list list option \<Rightarrow> Position list" where
  "find_single_robot_path robot goal other_robot_paths =
     (let others = (case other_robot_paths of None \<Rightarrow> [] | Some ps \<Rightarrow> ps)
      in find_path (robot_position robot) goal (Some others) 50)"

section \<open>Obstacle paths handed to the search (simulator.py)\<close>

text \<open>
  \<open>MAPFSimulator._get_other_robot_paths\<close>: a moving robot contributes its current position
  followed by the rest of its path (\<open>robot.path[robot.path_index:]\<close>, where a negative index
  counts from the end), an idle robot a path of 20 copies of its position, any other robot
  nothing.
\<close>

definition get_other_robot_paths :: "Robot list \<Rightarrow> int \<Rightarrow> Position list list" where
  "get_other_robot_paths robots exclude_robot_id =
     concat (map (\<lambda>robot.
        if robot_id robot = exclude_robot_id then []
        else if status robot = MOVING \<and> robot_path robot \<noteq> [] then
          (let current_pos = robot_position robot;
               k = (if path_index robot < 0
                    then nat (int (length (robot_path robot)) + path_index robot)
                    else nat (path_index robot));
               remaining_path = drop k (robot_path robot)
           in [[current_pos] @ remaining_path])
        else if status robot = IDLE then [replicate 20 (robot_position robot)]
        else []) robots)"

text \<open>
  The simulator creates its robots idle, with an empty path:
  \<open>Robot(id=.., position=.., path=[], path_index=0, priority=.., status=RobotStatus.IDLE)\<close>.
\<close>

definition idle_robot :: "int \<Rightarrow> Position \<Rightarrow> int \<Rightarrow> Robot" where
  "idle_robot i p pr =
     \<lparr>robot_id = i, robot_position = p, robot_path = [], path_index = 0, priority = pr,
      status = IDLE, is_waiting = False\<rparr>"

section \<open>Reservation table (demo.py)\<close>

text \<open>
  \<open>ReservationTable\<close>: two \<open>defaultdict(dict)\<close>, from a time to the dictionary of the cells
  (or directed edges) reserved at that time, each with the id of the agent that owns it.
  A time without entries reads as the empty dictionary, so each table is a function from
  times to maps. Cells are pairs of integers. \<open>reserve_path\<close> runs over
  \<open>enumerate(path)\<close>; \<open>reserve_step\<close> is the body of that loop at index \<open>i\<close>.
\<close>

record ReservationTable =
  vertex_table :: "int \<Rightarrow> ((int \<times> int) \<rightharpoonup> int)"
  edge_table :: "int \<Rightarrow> (((int \<times> int) \<times> (int \<times> int)) \<rightharpoonup> int)"

definition empty_table :: ReservationTable where
  "empty_table = \<lparr>vertex_table = (\<lambda>t. Map.empty), edge_table = (\<lambda>t. Map.empty)\<rparr>"

definition is_vertex_free :: "ReservationTable \<Rightarrow> int \<Rightarrow> int \<Rightarrow> int \<Rightarrow> int \<Rightarrow> bool" where
  "is_vertex_free self x y t agent_id =
     (case vertex_table self t (x, y) of
        Some owner \<Rightarrow> owner = agent_id
      | None \<Rightarrow> True)"

definition is_edge_free :: "ReservationTable \<Rightarrow> int \<times> int \<Rightarrow> int \<times> int \<Rightarrow> int \<Rightarrow> int \<Rightarrow> bool" where
  "is_edge_free self from_pos to_pos t agent_id =
     (let reverse_edge = (to_pos, from_pos)
      in case edge_table self t reverse_edge of
           Some owner \<Rightarrow> owner = agent_id
         | None \<Rightarrow> True)"

definition reserve_step :: "(int \<times> int) list \<Rightarrow> int \<Rightarrow> int \<Rightarrow> ReservationTable \<Rightarrow> nat \<Rightarrow> ReservationTable" where
  "reserve_step pth start_time agent_id self i =
     (let pos = pth ! i;
          t = start_time + int i;
          self1 = self\<lparr>vertex_table := (vertex_table self)(t := (vertex_table self t)(pos \<mapsto> agent_id))\<rparr>
      in if i > 0
         then (let prev_pos = pth ! (i - 1);
                   edge = (prev_pos, pos)
               in self1\<lparr>edge_table := (edge_table self1)(t := (edge_table self1 t)(edge \<mapsto> agent_id))\<rparr>)
         else self1)"

definition reserve_path :: "ReservationTable \<Rightarrow> (int \<times> int) list \<Rightarrow> int \<Rightarrow> int \<Rightarrow> ReservationTable" where
  "reserve_path self pth start_time agent_id =
     foldl (reserve_step pth start_time agent_id) self [0..<length pth]"

section \<open>What a found path guarantees\<close>

lemma set_heappush: "set (heappush heap item) = insert item (set heap)"
  using mset_heappush[of heap item] by (metis set_mset_mset set_mset_add_mset_insert)

lemma set_heappop: "heappop heap = Some (item, rest) \<Longrightarrow> set heap = insert item (set rest)"
  by (drule mset_heappop) (metis set_mset_mset set_mset_add_mset_insert)

definition step_free :: "Position list list \<Rightarrow> Position list \<Rightarrow> bool" where
  "step_free others p = (\<forall>t. 0 < t \<and> t < length p \<longrightarrow> \<not> has_collision (p ! (t - 1)) (p ! t) t others)"

definition node_ok :: "Position \<Rightarrow> Position list list \<Rightarrow> AStarNode \<Rightarrow> bool" where
  "node_ok start others n =
     (length (path n) = time n \<and> hd (path n @ [position n]) = start \<and>
      step_free others (path n @ [position n]))"

lemma step_free_snoc:
  assumes "step_free others (ps @ [p])" and "\<not> has_collision p q (Suc (length ps)) others"
  shows "step_free others ((ps @ [p]) @ [q])"
  unfolding step_free_def
proof (intro allI impI)
  fix t assume t: "0 < t \<and> t < length ((ps @ [p]) @ [q])"
  show "\<not> has_collision (((ps @ [p]) @ [q]) ! (t - 1)) (((ps @ [p]) @ [q]) ! t) t others"
  proof (cases "t < length (ps @ [p])")
    case True
    have "t - 1 < length (ps @ [p])" using True by simp
    then have "((ps @ [p]) @ [q]) ! (t - 1) = (ps @ [p]) ! (t - 1)"
      by (rule nth_append_left)
    moreover have "((ps @ [p]) @ [q]) ! t = (ps @ [p]) ! t"
      using True by (rule nth_append_left)
    moreover have "\<not> has_collision ((ps @ [p]) ! (t - 1)) ((ps @ [p]) ! t) t others"
      using assms(1) t True unfolding step_free_def by blast
    ultimately show ?thesis by simp
  next
    case False
    then have te: "t = Suc (length ps)" using t by simp
    then show ?thesis using assms(2) by (simp add: nth_append)
  qed
qed

lemma node_ok_succ:
  assumes "node_ok start others cur"
    and "\<not> has_collision (position cur) next_pos (time cur + 1) others"
  shows "node_ok start others
           \<lparr>position = next_pos, time = time cur + 1, g_cost = g, f_cost = f,
            path = path cur @ [position cur]\<rparr>"
  using assms step_free_snoc[of others "path cur" "position cur" next_pos]
  by (auto simp: node_ok_def hd_append split: if_splits)

lemma expand_ok:
  assumes "node_ok start others cur"
  shows "\<forall>n\<in>set open_set. node_ok start others n \<Longrightarrow>
         \<forall>n\<in>set (expand goal others closed_set cur moves open_set). node_ok start others n"
proof (induction moves arbitrary: open_set)
  case Nil
  then show ?case by simp
next
  case (Cons mv moves)
  obtain next_pos move_cost where mv: "mv = (next_pos, move_cost)" by (cases mv)
  show ?case
  proof (cases "has_collision (position cur) next_pos (time cur + 1) others \<or> (next_pos, time cur + 1) \<in> closed_set")
    case True
    then show ?thesis using Cons.IH[OF Cons.prems] by (auto simp: mv Let_def)
  next
    case False
    let ?n = "\<lparr>position = next_pos, time = time cur + 1, g_cost = g_cost cur + move_cost,
               f_cost = g_cost cur + move_cost + heuristic next_pos goal,
               path = path cur @ [position cur]\<rparr>"
    have "node_ok start others ?n" using node_ok_succ[OF assms] False by simp
    then have "\<forall>n\<in>set (heappush open_set ?n). node_ok start others n"
      using Cons.prems by (simp add: set_heappush)
    from Cons.IH[OF this] show ?thesis using False by (simp add: mv Let_def)
  qed
qed

lemma find_path_loop_ok:
  "\<forall>n\<in>set open_set. node_ok start others n \<Longrightarrow>
   find_path_loop goal others max_time open_set closed_set = r \<Longrightarrow> r \<noteq> [] \<Longrightarrow>
   r ! 0 = start \<and> last r = goal \<and> step_free others r"
proof (induction goal others max_time open_set closed_set rule: find_path_loop.induct)
  case (1 goal others max_time open_set closed_set)
  show ?case
  proof (cases "heappop open_set")
    case None
    then show ?thesis using "1.prems" by (subst (asm) find_path_loop.simps) simp
  next
    case (Some a)
    obtain current open1 where a: "a = (current, open1)" by (cases a)
    have pop: "heappop open_set = Some (current, open1)" using Some a by simp
    have sets: "set open_set = insert current (set open1)" by (rule set_heappop[OF pop])
    have cur: "node_ok start others current" and rest: "\<forall>n\<in>set open1. node_ok start others n"
      using "1.prems"(1) sets by auto
    show ?thesis
    proof (cases "position current = goal")
      case True
      then have "r = path current @ [position current]"
        using "1.prems"(2) pop by (subst (asm) find_path_loop.simps) simp
      then show ?thesis using cur True by (simp add: node_ok_def hd_conv_nth)
    next
      case ng: False
      show ?thesis
      proof (cases "(position current, time current) \<in> closed_set")
        case True
        have "find_path_loop goal others max_time open1 closed_set = r"
          using "1.prems"(2) pop ng True by (subst (asm) find_path_loop.simps) simp
        from "1.IH"(1)[OF pop refl ng True rest this "1.prems"(3)] show ?thesis .
      next
        case nc: False
        show ?thesis
        proof (cases "max_time \<le> int (time current)")
          case True
          have "find_path_loop goal others max_time open1 (insert (position current, time current) closed_set) = r"
            using "1.prems"(2) pop ng nc True by (subst (asm) find_path_loop.simps) (simp add: Let_def)
          from "1.IH"(2)[OF pop refl ng nc refl True rest this "1.prems"(3)] show ?thesis .
        next
          case False
          let ?c1 = "insert (position current, time current) closed_set"
          let ?o = "expand goal others ?c1 current (get_valid_moves (position current)) open1"
          have "find_path_loop goal others max_time ?o ?c1 = r"
            using "1.prems"(2) pop ng nc False by (subst (asm) find_path_loop.simps) (simp add: Let_def)
          moreover have "\<forall>n\<in>set ?o. node_ok start others n" by (rule expand_ok[OF cur rest])
          ultimately show ?thesis using "1.IH"(3)[OF pop refl ng nc refl False] "1.prems"(3) by blast
        qed
      qed
    qed
  qed
qed

lemma find_path_ok:
  assumes "find_path start goal (Some others) max_time = r" and "r \<noteq> []"
  shows "r ! 0 = start \<and> last r = goal \<and> step_free others r"
proof -
  let ?n = "\<lparr>position = start, time = 0, g_cost = 0, f_cost = heuristic start goal, path = []\<rparr>"
  have "node_ok start others ?n" by (simp add: node_ok_def step_free_def)
  then have "\<forall>n\<in>set (heappush [] ?n). node_ok start others n" by (simp add: set_heappush)
  moreover have "find_path_loop goal others max_time (heappush [] ?n) {} = r"
    using assms(1) by (simp add: find_path_def)
  ultimately show ?thesis using assms(2) by (rule find_path_loop_ok)
qed

lemma has_collision_iff:
  "has_collision c n t others \<longleftrightarrow> (\<exists>q\<in>set others. path_collides c n t q)"
  by (induction others) auto

definition avoid :: "Position list \<Rightarrow> Position list \<Rightarrow> bool" where
  "avoid p q = (\<forall>t. 0 < t \<and> t < length p \<and> t < length q \<longrightarrow>
                  p ! t \<noteq> q ! t \<and> \<not> (p ! (t - 1) = q ! t \<and> p ! t = q ! (t - 1)))"

lemma avoid_sym: "avoid p q \<Longrightarrow> avoid q p"
  unfolding avoid_def by (intro allI impI) (elim allE impE, auto)

lemma avoid_short: "length q \<le> 1 \<Longrightarrow> avoid p q"
  unfolding avoid_def by auto

lemma step_free_avoid:
  assumes "step_free others p" and "q \<in> set others"
  shows "avoid p q"
  unfolding avoid_def
proof (intro allI impI)
  fix t assume t: "0 < t \<and> t < length p \<and> t < length q"
  then have "\<not> has_collision (p ! (t - 1)) (p ! t) t others"
    using assms(1) unfolding step_free_def by blast
  then have "\<not> path_collides (p ! (t - 1)) (p ! t) t q"
    using assms(2) unfolding has_collision_iff by blast
  then show "p ! t \<noteq> q ! t \<and> \<not> (p ! (t - 1) = q ! t \<and> p ! t = q ! (t - 1))"
    using t by (auto simp: path_collides_def Let_def)
qed

section \<open>The planner keeps its paths pairwise apart\<close>

definition paths_ok :: "Robot list \<Rightarrow> (int \<rightharpoonup> Position list) \<times> Position list list \<Rightarrow> bool" where
  "paths_ok done st =
     (\<forall>j p. fst st j = Some p \<longrightarrow>
         p \<noteq> [] \<and> (length p = 1 \<or> p \<in> set (snd st)) \<and>
         (\<exists>r\<in>set done. robot_id r = j \<and> p ! 0 = robot_position r))"

definition paths_avoid :: "(int \<rightharpoonup> Position list) \<times> Position list list \<Rightarrow> bool" where
  "paths_avoid st = (\<forall>i j p q. i \<noteq> j \<longrightarrow> fst st i = Some p \<longrightarrow> fst st j = Some q \<longrightarrow> avoid p q)"

lemma paths_okD:
  "paths_ok done st \<Longrightarrow> fst st j = Some p \<Longrightarrow>
   p \<noteq> [] \<and> (length p = 1 \<or> p \<in> set (snd st)) \<and>
   (\<exists>r\<in>set done. robot_id r = j \<and> p ! 0 = robot_position r)"
  unfolding paths_ok_def by blast

lemma paths_avoidD:
  "paths_avoid st \<Longrightarrow> i \<noteq> j \<Longrightarrow> fst st i = Some p \<Longrightarrow> fst st j = Some q \<Longrightarrow> avoid p q"
  unfolding paths_avoid_def by blast

lemma paths_ok_skip: "paths_ok done st \<Longrightarrow> paths_ok (done @ [robot]) st"
  unfolding paths_ok_def
proof (intro allI impI)
  fix j p
  assume a: "\<forall>j p. fst st j = Some p \<longrightarrow>
         p \<noteq> [] \<and> (length p = 1 \<or> p \<in> set (snd st)) \<and>
         (\<exists>r\<in>set done. robot_id r = j \<and> p ! 0 = robot_position r)"
    and f: "fst st j = Some p"
  from a f have 1: "p \<noteq> []" and 2: "length p = 1 \<or> p \<in> set (snd st)"
    and 3: "\<exists>r\<in>set done. robot_id r = j \<and> p ! 0 = robot_position r" by blast+
  from 3 have "\<exists>r\<in>set (done @ [robot]). robot_id r = j \<and> p ! 0 = robot_position r" by auto
  with 1 2 show "p \<noteq> [] \<and> (length p = 1 \<or> p \<in> set (snd st)) \<and>
         (\<exists>r\<in>set (done @ [robot]). robot_id r = j \<and> p ! 0 = robot_position r)" by simp
qed

lemma paths_ok_update:
  assumes ok: "paths_ok done (paths, L)"
    and new: "new \<noteq> []" "length new = 1 \<or> new \<in> set L'" "new ! 0 = robot_position robot"
    and sub: "set L \<subseteq> set L'"
  shows "paths_ok (done @ [robot]) (paths(robot_id robot \<mapsto> new), L')"
  unfolding paths_ok_def
proof (intro allI impI)
  fix j p
  assume f: "fst (paths(robot_id robot \<mapsto> new), L') j = Some p"
  show "p \<noteq> [] \<and> (length p = 1 \<or> p \<in> set (snd (paths(robot_id robot \<mapsto> new), L'))) \<and>
         (\<exists>r\<in>set (done @ [robot]). robot_id r = j \<and> p ! 0 = robot_position r)"
  proof (cases "j = robot_id robot")
    case True
    then have "p = new" using f by simp
    then show ?thesis using new True by simp
  next
    case False
    then have "fst (paths, L) j = Some p" using f by simp
    from paths_okD[OF ok this] have 1: "p \<noteq> []" and 2: "length p = 1 \<or> p \<in> set L"
      and 3: "\<exists>r\<in>set done. robot_id r = j \<and> p ! 0 = robot_position r" by simp_all
    from 3 have "\<exists>r\<in>set (done @ [robot]). robot_id r = j \<and> p ! 0 = robot_position r" by auto
    moreover from 2 sub have "length p = 1 \<or> p \<in> set L'" by auto
    ultimately show ?thesis using 1 by simp
  qed
qed

lemma paths_avoid_update:
  assumes av: "paths_avoid (paths, L)"
    and new: "\<And>j q. j \<noteq> k \<Longrightarrow> paths j = Some q \<Longrightarrow> avoid new q"
  shows "paths_avoid (paths(k \<mapsto> new), L')"
  unfolding paths_avoid_def
proof (intro allI impI)
  fix i j p q
  assume ij: "i \<noteq> j" and fi: "fst (paths(k \<mapsto> new), L') i = Some p"
    and fj: "fst (paths(k \<mapsto> new), L') j = Some q"
  show "avoid p q"
  proof (cases "i = k")
    case True
    then have "p = new" "j \<noteq> k" "paths j = Some q" using ij fi fj by simp_all
    then show ?thesis using new by simp
  next
    case False
    show ?thesis
    proof (cases "j = k")
      case True
      then have "q = new" "paths i = Some p" using False fi fj by simp_all
      then show ?thesis using new[OF False] avoid_sym by simp
    next
      case nj: False
      then have "fst (paths, L) i = Some p" "fst (paths, L) j = Some q" using False fi fj by simp_all
      then show ?thesis using paths_avoidD[OF av ij] by simp
    qed
  qed
qed

lemma plan_inv_step:
  assumes ok: "paths_ok done st" and av: "paths_avoid st"
  shows "paths_ok (done @ [robot]) (plan_robot goals st robot) \<and>
         paths_avoid (plan_robot goals st robot)"
proof -
  obtain paths L where st: "st = (paths, L)" by (cases st)
  show ?thesis
  proof (cases "goals (robot_id robot)")
    case None
    then have "plan_robot goals st robot = st" by (simp add: plan_robot_def st)
    then show ?thesis using paths_ok_skip[OF ok] av by simp
  next
    case (Some goal)
    define found where "found = find_path (robot_position robot) goal (Some L) 50"
    define new where "new = (if found \<noteq> [] then found else [robot_position robot])"
    define L' where "L' = (if found \<noteq> [] then L @ [found] else L)"
    have res: "plan_robot goals st robot = (paths(robot_id robot \<mapsto> new), L')"
      by (simp add: plan_robot_def st Some Let_def found_def new_def L'_def)
    have new_ne: "new \<noteq> []" by (simp add: new_def)
    have new0: "new ! 0 = robot_position robot"
      using find_path_ok[OF found_def[symmetric]] by (simp add: new_def)
    have new_mem: "length new = 1 \<or> new \<in> set L'" by (simp add: new_def L'_def)
    have subL: "set L \<subseteq> set L'" by (auto simp: L'_def)
    have new_avoid: "avoid new q" if "q \<in> set L" for q
    proof (cases "found \<noteq> []")
      case True
      then have "step_free L found" using find_path_ok[OF found_def[symmetric]] by simp
      then show ?thesis using that True by (simp add: new_def step_free_avoid)
    next
      case False
      then have "length new \<le> 1" by (simp add: new_def)
      then have "avoid q new" by (rule avoid_short)
      then show ?thesis by (rule avoid_sym)
    qed
    have new_avoid_old: "avoid new q" if "paths j = Some q" for j q
    proof -
      have "fst (paths, L) j = Some q" using that by simp
      from paths_okD[OF ok[unfolded st] this] have "length q = 1 \<or> q \<in> set L" by simp
      then show ?thesis
      proof
        assume "length q = 1"
        then have "length q \<le> 1" by simp
        then show ?thesis by (rule avoid_short)
      next
        assume "q \<in> set L" then show ?thesis by (rule new_avoid)
      qed
    qed
    have "paths_ok (done @ [robot]) (paths(robot_id robot \<mapsto> new), L')"
      using ok[unfolded st] new_ne new_mem new0 subL by (rule paths_ok_update)
    moreover have "paths_avoid (paths(robot_id robot \<mapsto> new), L')"
      using av[unfolded st] new_avoid_old by (rule paths_avoid_update)
    ultimately show ?thesis by (simp add: res)
  qed
qed

lemma plan_inv_foldl:
  "paths_ok rs (foldl (plan_robot goals) (Map.empty, []) rs) \<and>
   paths_avoid (foldl (plan_robot goals) (Map.empty, []) rs)"
proof (induction rs rule: rev_induct)
  case Nil
  then show ?case by (simp add: paths_ok_def paths_avoid_def)
next
  case (snoc r rs)
  then show ?case using plan_inv_step[of rs _ r goals] by simp
qed

lemma solve_paths_avoid:
  assumes "solve_multi_robot_path robots goals i = Some p"
    and "solve_multi_robot_path robots goals j = Some q" and "i \<noteq> j"
  shows "avoid p q"
proof -
  let ?st = "foldl (plan_robot goals) (Map.empty, []) (sort_key priority robots)"
  have "paths_avoid ?st" using plan_inv_foldl by blast
  moreover have "fst ?st i = Some p" "fst ?st j = Some q"
    using assms(1,2) by (simp_all add: solve_multi_robot_path_def)
  ultimately show ?thesis using assms(3) paths_avoidD by blast
qed


section \<open>Searches that cannot succeed\<close>

text \<open>
  Three ways for the search to fail, each ending in the empty list: the goal is not a cell
  any move leads to (its row is neither 0 nor 1), the start has no move at all, or the
  time budget is already used up at the start.
\<close>

lemma expand_positions:
  assumes "\<forall>n\<in>set open_set. P (position n)"
    and "\<forall>mv\<in>set moves. P (fst mv)"
  shows "\<forall>n\<in>set (expand goal others closed_set cur moves open_set). P (position n)"
  using assms
proof (induction moves arbitrary: open_set)
  case Nil
  then show ?case by simp
next
  case (Cons mv moves)
  obtain next_pos move_cost where mv: "mv = (next_pos, move_cost)" by (cases mv)
  have P: "P next_pos" and rest: "\<forall>mv\<in>set moves. P (fst mv)" using Cons.prems(2) mv by auto
  let ?n = "\<lparr>position = next_pos, time = time cur + 1, g_cost = g_cost cur + move_cost,
             f_cost = g_cost cur + move_cost + heuristic next_pos goal,
             path = path cur @ [position cur]\<rparr>"
  have "\<forall>n\<in>set (heappush open_set ?n). P (position n)"
    using Cons.prems(1) P by (simp add: set_heappush)
  from Cons.IH[OF this rest] Cons.IH[OF Cons.prems(1) rest]
  show ?case by (simp add: mv Let_def)
qed

lemma find_path_loop_never_goal:
  "\<forall>n\<in>set open_set. position n \<noteq> goal \<Longrightarrow>
   \<forall>p. \<forall>mv\<in>set (get_valid_moves p). fst mv \<noteq> goal \<Longrightarrow>
   find_path_loop goal others max_time open_set closed_set = []"
proof (induction goal others max_time open_set closed_set rule: find_path_loop.induct)
  case (1 goal others max_time open_set closed_set)
  show ?case
  proof (cases "heappop open_set")
    case None
    then show ?thesis by (subst find_path_loop.simps) simp
  next
    case (Some a)
    obtain current open1 where a: "a = (current, open1)" by (cases a)
    have pop: "heappop open_set = Some (current, open1)" using Some a by simp
    have sets: "set open_set = insert current (set open1)" by (rule set_heappop[OF pop])
    have ng: "position current \<noteq> goal" and rest: "\<forall>n\<in>set open1. position n \<noteq> goal"
      using "1.prems"(1) sets by auto
    show ?thesis
    proof (cases "(position current, time current) \<in> closed_set")
      case True
      from "1.IH"(1)[OF pop refl ng True rest "1.prems"(2)]
      show ?thesis using pop ng True by (subst find_path_loop.simps) simp
    next
      case nc: False
      show ?thesis
      proof (cases "max_time \<le> int (time current)")
        case True
        from "1.IH"(2)[OF pop refl ng nc refl True rest "1.prems"(2)]
        show ?thesis using pop ng nc True by (subst find_path_loop.simps) (simp add: Let_def)
      next
        case False
        let ?c1 = "insert (position current, time current) closed_set"
        let ?o = "expand goal others ?c1 current (get_valid_moves (position current)) open1"
        have "\<forall>n\<in>set ?o. position n \<noteq> goal"
          using rest "1.prems"(2) by (intro expand_positions) auto
        from "1.IH"(3)[OF pop refl ng nc refl False this "1.prems"(2)]
        show ?thesis using pop ng nc False by (subst find_path_loop.simps) (simp add: Let_def)
      qed
    qed
  qed
qed

lemma heappush_Nil: "heappush [] n = [n]"
  by (simp add: heappush_def siftdown_def siftdown_loop.simps)

lemma heappop_single: "heappop [n] = Some (n, [])"
  by (simp add: heappop_def)

lemma find_path_invalid_goal:
  assumes "start \<noteq> goal" and "row goal \<noteq> 0" and "row goal \<noteq> 1"
  shows "find_path start goal others max_time = []"
proof -
  have "\<forall>p. \<forall>mv\<in>set (get_valid_moves p). fst mv \<noteq> goal"
    using assms(2,3) by (auto simp: get_valid_moves_def split: if_splits)
  then show ?thesis
    unfolding find_path_def Let_def heappush_Nil
    using assms(1) by (intro find_path_loop_never_goal) simp_all
qed

lemma find_path_no_moves:
  assumes "start \<noteq> goal" and "get_valid_moves start = []"
  shows "find_path start goal others max_time = []"
  unfolding find_path_def Let_def heappush_Nil using assms
  by (subst find_path_loop.simps, simp add: heappop_single Let_def)
     (subst find_path_loop.simps, simp add: heappop_def)+

lemma find_path_no_time:
  assumes "start \<noteq> goal" and "max_time \<le> 0"
  shows "find_path start goal others max_time = []"
  unfolding find_path_def Let_def heappush_Nil using assms
  by (subst find_path_loop.simps, simp add: heappop_single Let_def)
     (subst find_path_loop.simps, simp add: heappop_def)+

section \<open>The planning loop and the robots it does not touch\<close>

lemma plan_robot_other_id:
  "robot_id robot \<noteq> j \<Longrightarrow> fst (plan_robot goals st robot) j = fst st j"
  by (cases st) (simp add: plan_robot_def Let_def split: option.splits)

lemma foldl_plan_other_id:
  "\<forall>r\<in>set rs. robot_id r \<noteq> j \<Longrightarrow> fst (foldl (plan_robot goals) st rs) j = fst st j"
  by (induction rs arbitrary: st) (simp_all add: plan_robot_other_id)

lemma plan_robot_failed:
  assumes "goals (robot_id robot) = Some goal"
    and "find_path (robot_position robot) goal (Some robot_paths_list) 50 = []"
  shows "plan_robot goals (paths, robot_paths_list) robot
         = (paths(robot_id robot \<mapsto> [robot_position robot]), robot_paths_list)"
  using assms by (simp add: plan_robot_def)

lemma sorted_split:
  fixes f :: "'a \<Rightarrow> int"
  shows "sorted (map f xs) \<Longrightarrow> xs = filter (\<lambda>x. f x \<le> p) xs @ filter (\<lambda>x. p < f x) xs"
proof (induction xs)
  case Nil
  then show ?case by simp
next
  case (Cons x xs)
  show ?case
  proof (cases "f x \<le> p")
    case True
    then show ?thesis using Cons by simp
  next
    case False
    then have "\<forall>y\<in>set xs. p < f y" using Cons.prems by fastforce
    then have "filter (\<lambda>x. f x \<le> p) xs = []" "filter (\<lambda>x. p < f x) xs = xs"
      by (auto simp: filter_empty_conv filter_id_conv)
    then show ?thesis using False by simp
  qed
qed

section \<open>The open set is a heap by f-cost\<close>

text \<open>
  \<open>heap_ok\<close>: every entry of the list is at least as costly (by f) as its parent at index
  \<open>(i - 1) div 2\<close>. \<open>heappush\<close> and \<open>heappop\<close> keep this, and under it the first entry has
  the least f-cost of all.
\<close>

definition heap_ok :: "AStarNode list \<Rightarrow> bool" where
  "heap_ok heap = list_all (\<lambda>i. f_cost (heap ! ((i - 1) div 2)) \<le> f_cost (heap ! i)) [1..<length heap]"

lemma heap_ok_iff:
  "heap_ok heap \<longleftrightarrow> (\<forall>i. 0 < i \<and> i < length heap \<longrightarrow> f_cost (heap ! ((i - 1) div 2)) \<le> f_cost (heap ! i))"
  by (auto simp: heap_ok_def list_all_iff)

definition dn_inv :: "AStarNode list \<Rightarrow> nat \<Rightarrow> AStarNode \<Rightarrow> bool" where
  "dn_inv heap pos x \<longleftrightarrow>
     pos < length heap \<and>
     (\<forall>i. 0 < i \<and> i < length heap \<and> i \<noteq> pos \<and> (i - 1) div 2 \<noteq> pos \<longrightarrow>
          f_cost (heap ! ((i - 1) div 2)) \<le> f_cost (heap ! i)) \<and>
     (\<forall>c. 0 < c \<and> c < length heap \<and> (c - 1) div 2 = pos \<longrightarrow>
          f_cost x \<le> f_cost (heap ! c) \<and>
          (0 < pos \<longrightarrow> f_cost (heap ! ((pos - 1) div 2)) \<le> f_cost (heap ! c)))"

lemma dn_step:
  assumes inv: "dn_inv heap pos x" and pos: "0 < pos"
    and less: "lt x (heap ! ((pos - 1) div 2))"
  shows "dn_inv (heap[pos := heap ! ((pos - 1) div 2)]) ((pos - 1) div 2) x"
proof -
  define pp where "pp = (pos - 1) div 2"
  define h' where "h' = heap[pos := heap ! pp]"
  have pp: "pp < pos" using pos by (simp add: pp_def)
  have len: "pos < length heap" using inv by (simp add: dn_inv_def)
  have b: "f_cost (heap ! ((i - 1) div 2)) \<le> f_cost (heap ! i)"
    if "0 < i" "i < length heap" "i \<noteq> pos" "(i - 1) div 2 \<noteq> pos" for i
    using inv that by (simp add: dn_inv_def)
  have d: "f_cost (heap ! pp) \<le> f_cost (heap ! c)"
    if "0 < c" "c < length heap" "(c - 1) div 2 = pos" for c
    using inv that pos by (simp add: dn_inv_def pp_def)
  have xpp: "f_cost x < f_cost (heap ! pp)" using less by (simp add: lt_def pp_def)
  have ppar: "(pp - 1) div 2 \<noteq> pos" using pp by arith
  have 1: "f_cost (h' ! ((i - 1) div 2)) \<le> f_cost (h' ! i)"
    if i: "0 < i" "i < length h'" "i \<noteq> pp" "(i - 1) div 2 \<noteq> pp" for i
  proof (cases "(i - 1) div 2 = pos")
    case True
    then have "i \<noteq> pos" using i(1) by arith
    then have "h' ! i = heap ! i" "h' ! ((i - 1) div 2) = heap ! pp"
      using True len by (simp_all add: h'_def)
    then show ?thesis using d[of i] i True by (simp add: h'_def)
  next
    case False
    have "i \<noteq> pos" using i(4) by (auto simp: pp_def)
    then have "h' ! i = heap ! i" "h' ! ((i - 1) div 2) = heap ! ((i - 1) div 2)"
      using False by (simp_all add: h'_def)
    then show ?thesis using b[of i] i False \<open>i \<noteq> pos\<close> by (simp add: h'_def)
  qed
  have 2: "f_cost x \<le> f_cost (h' ! c) \<and>
           (0 < pp \<longrightarrow> f_cost (h' ! ((pp - 1) div 2)) \<le> f_cost (h' ! c))"
    if c: "0 < c" "c < length h'" "(c - 1) div 2 = pp" for c
  proof -
    have gp: "h' ! ((pp - 1) div 2) = heap ! ((pp - 1) div 2)"
      using ppar by (simp add: h'_def)
    have gpp: "0 < pp \<Longrightarrow> f_cost (heap ! ((pp - 1) div 2)) \<le> f_cost (heap ! pp)"
      using b[of pp] pp len ppar by simp
    show ?thesis
    proof (cases "c = pos")
      case True
      then have "h' ! c = heap ! pp" using len by (simp add: h'_def)
      then show ?thesis using xpp gp gpp by simp
    next
      case False
      then have hc: "h' ! c = heap ! c" by (simp add: h'_def)
      have "(c - 1) div 2 \<noteq> pos" using c(3) pp by simp
      then have "f_cost (heap ! pp) \<le> f_cost (heap ! c)"
        using b[of c] c False by (simp add: h'_def)
      then show ?thesis using hc xpp gp gpp by fastforce
    qed
  qed
  have "pp < length h'" using pp len by (simp add: h'_def)
  with 1 2 show ?thesis unfolding dn_inv_def pp_def[symmetric] h'_def[symmetric] by blast
qed

lemma dn_done:
  assumes inv: "dn_inv heap pos x"
    and stop: "pos = 0 \<or> \<not> lt x (heap ! ((pos - 1) div 2))"
  shows "heap_ok (heap[pos := x])"
  unfolding heap_ok_iff
proof (intro allI impI)
  fix i assume i: "0 < i \<and> i < length (heap[pos := x])"
  have len: "pos < length heap" using inv by (simp add: dn_inv_def)
  show "f_cost (heap[pos := x] ! ((i - 1) div 2)) \<le> f_cost (heap[pos := x] ! i)"
  proof (cases "i = pos")
    case True
    then have "(i - 1) div 2 \<noteq> pos" using i by arith
    then show ?thesis using True stop i len by (simp add: lt_def)
  next
    case False
    show ?thesis
    proof (cases "(i - 1) div 2 = pos")
      case True
      then show ?thesis using inv i False len by (simp add: dn_inv_def)
    next
      case np: False
      then show ?thesis using inv i False by (simp add: dn_inv_def)
    qed
  qed
qed

lemma siftdown_loop_ok:
  "dn_inv heap pos x \<Longrightarrow> heap_ok (siftdown_loop heap 0 pos x)"
proof (induction heap "0::nat" pos x rule: siftdown_loop.induct)
  case (1 heap pos newitem)
  show ?case
  proof (cases "0 < pos \<and> lt newitem (heap ! ((pos - 1) div 2))")
    case True
    then have "dn_inv (heap[pos := heap ! ((pos - 1) div 2)]) ((pos - 1) div 2) newitem"
      using dn_step[OF "1.prems"] by simp
    then have "heap_ok (siftdown_loop (heap[pos := heap ! ((pos - 1) div 2)]) 0 ((pos - 1) div 2) newitem)"
      using "1.hyps"[OF _ refl refl] True by simp
    then show ?thesis using True by (subst siftdown_loop.simps) (simp add: Let_def)
  next
    case False
    then have "pos = 0 \<or> \<not> lt newitem (heap ! ((pos - 1) div 2))" by auto
    then have "heap_ok (heap[pos := newitem])" by (rule dn_done[OF "1.prems"])
    then show ?thesis using False by (subst siftdown_loop.simps) (auto simp: Let_def)
  qed
qed

lemma heap_ok_heappush: "heap_ok heap \<Longrightarrow> heap_ok (heappush heap item)"
proof -
  assume ok: "heap_ok heap"
  have "dn_inv (heap @ [item]) (length heap) item"
    unfolding dn_inv_def
  proof (intro conjI allI impI)
    show "length heap < length (heap @ [item])" by simp
  next
    fix i assume "0 < i \<and> i < length (heap @ [item]) \<and> i \<noteq> length heap \<and> (i - 1) div 2 \<noteq> length heap"
    then have i: "0 < i" "i < length heap" by simp_all
    then have "(i - 1) div 2 < length heap" by arith
    then show "f_cost ((heap @ [item]) ! ((i - 1) div 2)) \<le> f_cost ((heap @ [item]) ! i)"
      using ok i by (simp add: heap_ok_iff nth_append)
  next
    fix c assume c: "0 < c \<and> c < length (heap @ [item]) \<and> (c - 1) div 2 = length heap"
    then have False by simp arith
    then show "f_cost item \<le> f_cost ((heap @ [item]) ! c)" ..
  next
    fix c assume c: "0 < c \<and> c < length (heap @ [item]) \<and> (c - 1) div 2 = length heap"
    then have False by simp arith
    then show "f_cost ((heap @ [item]) ! ((length heap - 1) div 2)) \<le> f_cost ((heap @ [item]) ! c)" ..
  qed
  then have "heap_ok (siftdown_loop (heap @ [item]) 0 (length heap) item)" by (rule siftdown_loop_ok)
  then show ?thesis by (simp add: heappush_def siftdown_def)
qed

definition up_inv :: "AStarNode list \<Rightarrow> nat \<Rightarrow> bool" where
  "up_inv heap pos \<longleftrightarrow>
     pos < length heap \<and>
     (\<forall>i. 0 < i \<and> i < length heap \<and> i \<noteq> pos \<and> (i - 1) div 2 \<noteq> pos \<longrightarrow>
          f_cost (heap ! ((i - 1) div 2)) \<le> f_cost (heap ! i)) \<and>
     (\<forall>c. 0 < c \<and> c < length heap \<and> (c - 1) div 2 = pos \<and> 0 < pos \<longrightarrow>
          f_cost (heap ! ((pos - 1) div 2)) \<le> f_cost (heap ! c))"

lemma up_step:
  assumes inv: "up_inv heap pos" and child: "2 * pos + 1 < length heap"
    and c1: "c1 = (if 2 * pos + 1 + 1 < length heap \<and> \<not> lt (heap ! (2 * pos + 1)) (heap ! (2 * pos + 1 + 1))
                   then 2 * pos + 1 + 1 else 2 * pos + 1)"
  shows "up_inv (heap[pos := heap ! c1]) c1"
proof -
  define h' where "h' = heap[pos := heap ! c1]"
  have len: "pos < length heap" using inv by (simp add: up_inv_def)
  have c1lt: "c1 < length heap" and c1gt: "pos < c1" and c1par: "(c1 - 1) div 2 = pos"
    using child by (auto simp: c1)
  have c1cases: "c1 = 2 * pos + 1 \<or> c1 = 2 * pos + 2" by (auto simp: c1)
  have b: "f_cost (heap ! ((i - 1) div 2)) \<le> f_cost (heap ! i)"
    if "0 < i" "i < length heap" "i \<noteq> pos" "(i - 1) div 2 \<noteq> pos" for i
    using inv that by (simp add: up_inv_def)
  have d: "f_cost (heap ! ((pos - 1) div 2)) \<le> f_cost (heap ! c)"
    if "0 < c" "c < length heap" "(c - 1) div 2 = pos" "0 < pos" for c
    using inv that by (simp add: up_inv_def)
  have small: "f_cost (heap ! c1) \<le> f_cost (heap ! c)"
    if "0 < c" "c < length heap" "(c - 1) div 2 = pos" for c
  proof -
    have "c = 2 * pos + 1 \<or> c = 2 * pos + 2" using that by arith
    then show ?thesis using that(2) by (auto simp: c1 lt_def)
  qed
  have 1: "f_cost (h' ! ((i - 1) div 2)) \<le> f_cost (h' ! i)"
    if i: "0 < i" "i < length h'" "i \<noteq> c1" "(i - 1) div 2 \<noteq> c1" for i
  proof (cases "i = pos")
    case True
    then have ppos: "(pos - 1) div 2 \<noteq> pos" "0 < pos" using i(1) by auto
    have "h' ! i = heap ! c1" "h' ! ((i - 1) div 2) = heap ! ((pos - 1) div 2)"
      using True len ppos by (simp_all add: h'_def)
    then show ?thesis using d[of c1] c1lt c1gt c1par ppos by simp
  next
    case False
    then have hi: "h' ! i = heap ! i" by (simp add: h'_def)
    show ?thesis
    proof (cases "(i - 1) div 2 = pos")
      case True
      then have "h' ! ((i - 1) div 2) = heap ! c1" using len by (simp add: h'_def)
      then show ?thesis using small[of i] i True hi by (simp add: h'_def)
    next
      case np: False
      then have "h' ! ((i - 1) div 2) = heap ! ((i - 1) div 2)" by (simp add: h'_def)
      then show ?thesis using b[of i] i False np hi by (simp add: h'_def)
    qed
  qed
  have 2: "f_cost (h' ! ((c1 - 1) div 2)) \<le> f_cost (h' ! c)"
    if c: "0 < c" "c < length h'" "(c - 1) div 2 = c1" for c
  proof -
    have "c \<noteq> pos" using c(3) c1gt c(1) by arith
    then have "h' ! c = heap ! c" by (simp add: h'_def)
    moreover have "h' ! ((c1 - 1) div 2) = heap ! c1" using c1par len by (simp add: h'_def)
    moreover have "f_cost (heap ! c1) \<le> f_cost (heap ! c)"
      using b[of c] c \<open>c \<noteq> pos\<close> c1gt by (simp add: h'_def)
    ultimately show ?thesis by simp
  qed
  have "c1 < length h'" using c1lt by (simp add: h'_def)
  with 1 2 show ?thesis unfolding up_inv_def h'_def[symmetric] by blast
qed

lemma siftup_loop_ok:
  "up_inv heap pos \<Longrightarrow> endpos = length heap \<Longrightarrow> childpos = 2 * pos + 1 \<Longrightarrow>
   siftup_loop heap endpos pos childpos = (heap1, pos1) \<Longrightarrow>
   up_inv heap1 pos1 \<and> length heap1 = length heap \<and> length heap1 \<le> 2 * pos1 + 1"
proof (induction heap endpos pos childpos arbitrary: heap1 pos1 rule: siftup_loop.induct)
  case (1 heap endpos pos childpos)
  show ?case
  proof (cases "childpos < endpos")
    case True
    define c1 where "c1 = (if childpos + 1 < endpos \<and> \<not> lt (heap ! childpos) (heap ! (childpos + 1))
                          then childpos + 1 else childpos)"
    have "siftup_loop heap endpos pos childpos =
          siftup_loop (heap[pos := heap ! c1]) endpos c1 (2 * c1 + 1)"
      by (subst siftup_loop.simps) (simp only: True if_True Let_def c1_def)
    then have eq: "siftup_loop (heap[pos := heap ! c1]) endpos c1 (2 * c1 + 1) = (heap1, pos1)"
      using "1.prems"(4) by simp
    have inv': "up_inv (heap[pos := heap ! c1]) c1"
      using "1.prems"(1) by (rule up_step) (use True "1.prems"(2,3) in \<open>simp_all add: c1_def\<close>)
    have "up_inv heap1 pos1 \<and> length heap1 = length (heap[pos := heap ! c1]) \<and>
          length heap1 \<le> 2 * pos1 + 1"
      by (rule "1.IH"[OF True refl refl, folded c1_def, OF inv' _ refl eq]) (simp add: "1.prems"(2))
    then show ?thesis by simp
  next
    case False
    then have "heap1 = heap" "pos1 = pos"
      using "1.prems"(4) by (subst (asm) siftup_loop.simps, simp)+
    then show ?thesis using "1.prems"(1,2,3) False by simp
  qed
qed

lemma up_inv_leaf_dn_inv:
  assumes "up_inv heap pos" and "length heap \<le> 2 * pos + 1"
  shows "dn_inv (heap[pos := x]) pos x"
proof -
  have nochild: "\<not> (0 < c \<and> c < length heap \<and> (c - 1) div 2 = pos)" for c
    using assms(2) by arith
  have "f_cost (heap[pos := x] ! ((i - 1) div 2)) \<le> f_cost (heap[pos := x] ! i)"
    if "0 < i \<and> i < length (heap[pos := x]) \<and> i \<noteq> pos \<and> (i - 1) div 2 \<noteq> pos" for i
    using assms(1) that by (simp add: up_inv_def)
  then show ?thesis using assms(1) nochild unfolding dn_inv_def up_inv_def by auto
qed

lemma heap_ok_siftup:
  assumes "up_inv heap 0"
  shows "heap_ok (siftup heap 0)"
proof -
  obtain heap1 pos1 where sl: "siftup_loop heap (length heap) 0 (2 * 0 + 1) = (heap1, pos1)"
    by (cases "siftup_loop heap (length heap) 0 (2 * 0 + 1)")
  from siftup_loop_ok[OF assms refl refl sl]
  have inv1: "up_inv heap1 pos1" and leaf: "length heap1 \<le> 2 * pos1 + 1" by simp_all
  have p1: "pos1 < length heap1" using inv1 by (simp add: up_inv_def)
  have "dn_inv (heap1[pos1 := heap ! 0]) pos1 (heap ! 0)"
    using inv1 leaf by (rule up_inv_leaf_dn_inv)
  then have "heap_ok (siftdown_loop (heap1[pos1 := heap ! 0]) 0 pos1 (heap ! 0))"
    by (rule siftdown_loop_ok)
  then show ?thesis using sl p1 by (simp add: siftup_def siftdown_def Let_def)
qed

lemma heap_ok_root_least:
  "heap_ok heap \<Longrightarrow> i < length heap \<Longrightarrow> f_cost (heap ! 0) \<le> f_cost (heap ! i)"
proof (induction i rule: less_induct)
  case (less i)
  show ?case
  proof (cases "i = 0")
    case True
    then show ?thesis by simp
  next
    case False
    then have lt: "(i - 1) div 2 < i" by simp
    then have "f_cost (heap ! 0) \<le> f_cost (heap ! ((i - 1) div 2))"
      using less.IH[OF lt less.prems(1)] less.prems(2) by simp
    moreover have "f_cost (heap ! ((i - 1) div 2)) \<le> f_cost (heap ! i)"
      using less.prems False by (simp add: heap_ok_iff)
    ultimately show ?thesis by simp
  qed
qed

lemma heappop_ok:
  assumes ok: "heap_ok heap" and pop: "heappop heap = Some (item, rest)"
  shows "heap_ok rest \<and> list_all (\<lambda>m. f_cost item \<le> f_cost m) heap"
proof -
  from pop have ne: "heap \<noteq> []" by (auto simp: heappop_def)
  show ?thesis
  proof (cases "butlast heap = []")
    case True
    then have "heap = [last heap]" using ne by (metis append_Nil append_butlast_last_id)
    then obtain a where a: "heap = [a]" by blast
    then show ?thesis using pop by (simp add: heappop_def heap_ok_def)
  next
    case False
    then have it: "item = butlast heap ! 0"
      and rs: "rest = siftup ((butlast heap)[0 := last heap]) 0"
      using pop ne by (auto simp: heappop_def Let_def)
    have bl: "0 < length (butlast heap)" using False by (cases "butlast heap") simp_all
    then have it0: "item = heap ! 0" using it by (simp add: nth_butlast)
    have "up_inv ((butlast heap)[0 := last heap]) 0"
      unfolding up_inv_def
    proof (intro conjI allI impI)
      show "0 < length ((butlast heap)[0 := last heap])" using bl by simp
    next
      fix i
      assume i: "0 < i \<and> i < length ((butlast heap)[0 := last heap]) \<and> i \<noteq> 0 \<and> (i - 1) div 2 \<noteq> 0"
      then have il: "i < length heap - 1" by simp
      then have "(i - 1) div 2 < length heap - 1" by arith
      then have "(butlast heap)[0 := last heap] ! ((i - 1) div 2) = heap ! ((i - 1) div 2)"
        "(butlast heap)[0 := last heap] ! i = heap ! i"
        using i il by (simp_all add: nth_butlast)
      moreover have "0 < i \<and> i < length heap" using i il by linarith
      then have "f_cost (heap ! ((i - 1) div 2)) \<le> f_cost (heap ! i)"
        using ok unfolding heap_ok_iff by blast
      ultimately show "f_cost ((butlast heap)[0 := last heap] ! ((i - 1) div 2))
                       \<le> f_cost ((butlast heap)[0 := last heap] ! i)" by simp
    next
      fix c
      assume "0 < c \<and> c < length ((butlast heap)[0 := last heap]) \<and> (c - 1) div 2 = 0 \<and> (0::nat) < 0"
      then show "f_cost ((butlast heap)[0 := last heap] ! ((0 - 1) div 2))
                 \<le> f_cost ((butlast heap)[0 := last heap] ! c)" by simp
    qed
    then have "heap_ok rest" unfolding rs by (rule heap_ok_siftup)
    moreover have "list_all (\<lambda>m. f_cost item \<le> f_cost m) heap"
      unfolding list_all_length it0 using heap_ok_root_least[OF ok] by simp
    ultimately show ?thesis by simp
  qed
qed

lemma heap_ok_expand:
  "heap_ok open_set \<Longrightarrow> heap_ok (expand goal others closed_set current moves open_set)"
proof (induction moves arbitrary: open_set)
  case Nil
  then show ?case by simp
next
  case (Cons mv moves)
  obtain next_pos move_cost where mv: "mv = (next_pos, move_cost)" by (cases mv)
  show ?case using Cons.IH Cons.prems heap_ok_heappush by (simp add: mv Let_def)
qed

section \<open>Reserving a path\<close>

lemma reserve_prefix:
  "n \<le> length pth \<Longrightarrow>
   vertex_table (foldl (reserve_step pth s a) T [0..<n]) =
     (\<lambda>t pos. if \<exists>i<n. t = s + int i \<and> pos = pth ! i then Some a else vertex_table T t pos) \<and>
   edge_table (foldl (reserve_step pth s a) T [0..<n]) =
     (\<lambda>t e. if \<exists>i<n. 0 < i \<and> t = s + int i \<and> e = (pth ! (i - 1), pth ! i) then Some a
             else edge_table T t e)"
proof (induction n)
  case 0
  then show ?case by simp
next
  case (Suc n)
  then have IH: "vertex_table (foldl (reserve_step pth s a) T [0..<n]) =
     (\<lambda>t pos. if \<exists>i<n. t = s + int i \<and> pos = pth ! i then Some a else vertex_table T t pos)"
    "edge_table (foldl (reserve_step pth s a) T [0..<n]) =
     (\<lambda>t e. if \<exists>i<n. 0 < i \<and> t = s + int i \<and> e = (pth ! (i - 1), pth ! i) then Some a
             else edge_table T t e)" by simp_all
  have v: "vertex_table (foldl (reserve_step pth s a) T [0..<Suc n]) =
     (\<lambda>t pos. if \<exists>i<Suc n. t = s + int i \<and> pos = pth ! i then Some a else vertex_table T t pos)"
    by (rule ext, rule ext) (auto simp: reserve_step_def Let_def IH less_Suc_eq)
  have e: "edge_table (foldl (reserve_step pth s a) T [0..<Suc n]) =
     (\<lambda>t e. if \<exists>i<Suc n. 0 < i \<and> t = s + int i \<and> e = (pth ! (i - 1), pth ! i) then Some a
             else edge_table T t e)"
    by (rule ext, rule ext) (auto simp: reserve_step_def Let_def IH less_Suc_eq)
  from v e show ?case by blast
qed

lemma reserve_path_tables:
  "vertex_table (reserve_path T pth s a) =
     (\<lambda>t pos. if \<exists>i<length pth. t = s + int i \<and> pos = pth ! i then Some a else vertex_table T t pos)"
  "edge_table (reserve_path T pth s a) =
     (\<lambda>t e. if \<exists>i<length pth. 0 < i \<and> t = s + int i \<and> e = (pth ! (i - 1), pth ! i) then Some a
             else edge_table T t e)"
  using reserve_prefix[of "length pth" pth s a T] by (simp_all add: reserve_path_def)

lemma reserve_path_more: "ReservationTable.more (reserve_path T pth s a) = ReservationTable.more T"
proof -
  have "ReservationTable.more (foldl (reserve_step pth s a) T xs) = ReservationTable.more T" for xs
    by (induction xs arbitrary: T) (simp_all add: reserve_step_def Let_def)
  then show ?thesis by (simp add: reserve_path_def)
qed

lemma reserve_path_twice:
  "reserve_path (reserve_path T pth s a) pth s a = reserve_path T pth s a"
proof -
  have "vertex_table (reserve_path (reserve_path T pth s a) pth s a) = vertex_table (reserve_path T pth s a)"
    by (rule ext, rule ext) (auto simp: reserve_path_tables)
  moreover have "edge_table (reserve_path (reserve_path T pth s a) pth s a) = edge_table (reserve_path T pth s a)"
    by (rule ext, rule ext) (auto simp: reserve_path_tables)
  ultimately show ?thesis by (simp add: ReservationTable.equality reserve_path_more)
qed

section \<open>Concrete runs\<close>

text \<open>
  Runs of the search and of the planner on small inputs, computed by unfolding the
  definitions. Robot 1 drives from corridor cell 0 to corridor cell 1; robot 2 stands on
  cell 1 and wants cell 0, so the direct move would swap the two: it steps aside to cell 2
  and comes back.
\<close>

lemmas search_eval = find_path_def find_path_loop.simps heappush_def heappop_def siftdown_def
  siftdown_loop.simps siftup_def siftup_loop.simps lt_def get_valid_moves_def GRID_WIDTH_def
  heuristic_def manhattan_distance_def path_collides_def Let_def

lemma run_first: "find_path (Position 1 0) (Position 1 1) (Some []) 50 = [Position 1 0, Position 1 1]"
  by (simp add: search_eval)

lemma run_swap_second:
  "find_path (Position 1 1) (Position 1 0) (Some [[Position 1 0, Position 1 1]]) 50
   = [Position 1 1, Position 1 2, Position 1 1, Position 1 0]"
  by (simp add: search_eval)


lemma run_third:
  "find_path (Position 1 2) (Position 1 1) (Some [[Position 1 0, Position 1 1]]) 50
   = [Position 1 2, Position 1 2, Position 1 1]"
  by (simp add: search_eval)

lemma swap_run:
  "solve_multi_robot_path [idle_robot 2 (Position 1 1) 2, idle_robot 1 (Position 1 0) 1]
     [1 \<mapsto> Position 1 1, 2 \<mapsto> Position 1 0]
   = [1 \<mapsto> [Position 1 0, Position 1 1],
      2 \<mapsto> [Position 1 1, Position 1 2, Position 1 1, Position 1 0]]"
  by (simp add: solve_multi_robot_path_def plan_robot_def idle_robot_def Let_def
      run_first run_swap_second)


section \<open>The claims\<close>

subsection \<open>C1: vertex conflicts\<close>




subsection \<open>C2: edge (swap) conflicts\<close>

text \<open>
  C2: for the paths \<open>P_i\<close>, \<open>P_j\<close> that one call of \<open>solve_multi_robot_path\<close> returns for
  robots \<open>i \<noteq> j\<close>, and every time \<open>t \<ge> 1\<close> below both lengths, the two robots do not
  swap cells between \<open>t - 1\<close> and \<open>t\<close>.
\<close>

theorem swap_conflict_free:
  assumes "solve_multi_robot_path robots goals i = Some P_i"
    and "solve_multi_robot_path robots goals j = Some P_j"
    and "i \<noteq> j" and "1 \<le> t" and "t < length P_i" and "t < length P_j"
  shows "\<not> (P_i ! (t - 1) = P_j ! t \<and> P_i ! t = P_j ! (t - 1))"
proof -
  have "avoid P_i P_j" using assms(1-3) by (rule solve_paths_avoid)
  then show ?thesis using assms(4-6) unfolding avoid_def by auto
qed

theorem swap_conflict_free_witness:
  "solve_multi_robot_path [idle_robot 2 (Position 1 1) 2, idle_robot 1 (Position 1 0) 1]
     [1 \<mapsto> Position 1 1, 2 \<mapsto> Position 1 0] 2
     = Some [Position 1 1, Position 1 2, Position 1 1, Position 1 0] \<and>
   solve_multi_robot_path [idle_robot 2 (Position 1 1) 2, idle_robot 1 (Position 1 0) 1]
     [1 \<mapsto> Position 1 1, 2 \<mapsto> Position 1 0] 1 = Some [Position 1 0, Position 1 1] \<and>
   (2::int) \<noteq> 1 \<and> (1::nat) \<le> 1 \<and>
   1 < length [Position 1 1, Position 1 2, Position 1 1, Position 1 0] \<and>
   1 < length [Position 1 0, Position 1 1] \<and>
   \<not> ([Position 1 1, Position 1 2, Position 1 1, Position 1 0] ! (1 - 1) = [Position 1 0, Position 1 1] ! 1 \<and>
      [Position 1 1, Position 1 2, Position 1 1, Position 1 0] ! 1 = [Position 1 0, Position 1 1] ! (1 - 1))"
proof -
  let ?rs = "[idle_robot 2 (Position 1 1) 2, idle_robot 1 (Position 1 0) 1]"
  let ?gs = "[1 \<mapsto> Position 1 1, 2 \<mapsto> Position 1 0]"
  have p1: "solve_multi_robot_path ?rs ?gs 1 = Some [Position 1 0, Position 1 1]"
    by (simp add: swap_run)
  have p2: "solve_multi_robot_path ?rs ?gs 2
            = Some [Position 1 1, Position 1 2, Position 1 1, Position 1 0]"
    by (simp add: swap_run)
  from swap_conflict_free[OF p2 p1, of 1] p1 p2 show ?thesis by simp
qed

subsection \<open>C3: the heuristic\<close>

text \<open>
  C3 asks for an admissible heuristic: never above the true remaining cost, and 0 at the
  goal. The code does not deliver it. From the corridor cell below a room the room is one
  move away (\<open>get_valid_moves\<close> offers it at cost 1) and the heuristic says 2; at a room that
  is the goal itself the heuristic says 1. The two values of \<open>room_steps\<close> are the wrong way
  round.
\<close>

theorem heuristic_overestimates:
  "heuristic (Position 1 2) (Position 0 2) = 2 \<and>
   (Position 0 2, 1) \<in> set (get_valid_moves (Position 1 2)) \<and>
   heuristic (Position 0 2) (Position 0 2) = 1"
  by (simp add: heuristic_def get_valid_moves_def GRID_WIDTH_def)

subsection \<open>C4: paths that have ended\<close>

text \<open>
  C4 as stated: an obstacle path blocks its last cell at every time past its end. The
  code does the opposite: both checks are guarded by \<open>next_time < len(other_path)\<close>. The
  20-entry path the simulator builds for an idle robot stops blocking at time 20, and a
  one-entry path blocks nothing: the search walks straight onto the parked robot's cell.
\<close>

theorem finished_path_does_not_block:
  "get_other_robot_paths [idle_robot 1 (Position 1 0) 1, idle_robot 2 (Position 1 4) 2] 2
     = [replicate 20 (Position 1 0)] \<and>
   length (replicate 20 (Position 1 0)) \<le> 20 \<and>
   replicate 20 (Position 1 0) ! (length (replicate 20 (Position 1 0)) - 1) = Position 1 0 \<and>
   \<not> has_collision (Position 1 1) (Position 1 0) 20 [replicate 20 (Position 1 0)] \<and>
   find_path (Position 1 1) (Position 1 0) (Some [[Position 1 0]]) 50 = [Position 1 1, Position 1 0]"
  by (simp add: get_other_robot_paths_def idle_robot_def path_collides_def search_eval)

text \<open>
  C4, amended: an obstacle path constrains only the times inside it. Paths with
  \<open>len(Q) \<le> t\<close> have no influence on the collision check at time \<open>t\<close>; for a path \<open>Q\<close> among
  the others and \<open>t < len(Q)\<close>, a move into \<open>Q[t]\<close> at time \<open>t\<close> is rejected.
\<close>

theorem collision_only_within_path:
  "has_collision current_pos next_pos t others
     = has_collision current_pos next_pos t (filter (\<lambda>q. t < length q) others) \<and>
   (q \<in> set others \<and> t < length q \<longrightarrow> has_collision current_pos (q ! t) t others)"
proof -
  have "path_collides current_pos next_pos t p \<Longrightarrow> t < length p" for p
    by (auto simp: path_collides_def)
  then have "has_collision current_pos next_pos t others
     = has_collision current_pos next_pos t (filter (\<lambda>q. t < length q) others)"
    unfolding has_collision_iff by auto
  moreover have "q \<in> set others \<and> t < length q \<longrightarrow> has_collision current_pos (q ! t) t others"
    unfolding has_collision_iff by (auto simp: path_collides_def)
  ultimately show ?thesis by simp
qed

theorem collision_only_within_path_witness:
  "has_collision (Position 1 1) (Position 1 0) 2 [[Position 1 0, Position 1 0], [Position 1 4, Position 1 3, Position 1 2]]
     = has_collision (Position 1 1) (Position 1 0) 2
         (filter (\<lambda>q. 2 < length q) [[Position 1 0, Position 1 0], [Position 1 4, Position 1 3, Position 1 2]]) \<and>
   [Position 1 4, Position 1 3, Position 1 2] \<in> set [[Position 1 0, Position 1 0], [Position 1 4, Position 1 3, Position 1 2]] \<and>
   2 < length [Position 1 4, Position 1 3, Position 1 2] \<and>
   has_collision (Position 1 1) ([Position 1 4, Position 1 3, Position 1 2] ! 2) 2
     [[Position 1 0, Position 1 0], [Position 1 4, Position 1 3, Position 1 2]]"
  using collision_only_within_path[of "Position 1 1" "Position 1 0" 2
     "[[Position 1 0, Position 1 0], [Position 1 4, Position 1 3, Position 1 2]]"
     "[Position 1 4, Position 1 3, Position 1 2]"]
  by (simp add: path_collides_def)

subsection \<open>C5: a robot whose search fails\<close>

text \<open>
  C5 as stated: a robot whose search fails is left without a path. In the code it is
  given the one-element path of its own position (``robot stays in place''), the same
  value a robot already standing on its goal receives.
\<close>

theorem failed_robot_gets_a_path:
  "find_path (Position 1 0) (Position 2 0) (Some []) 50 = [] \<and>
   solve_multi_robot_path [idle_robot 1 (Position 1 0) 1] [1 \<mapsto> Position 2 0] 1
     = Some [Position 1 0] \<and>
   solve_multi_robot_path [idle_robot 1 (Position 1 0) 1] [1 \<mapsto> Position 1 0] 1
     = Some [Position 1 0]"
proof -
  have f: "find_path (Position 1 0) (Position 2 0) (Some []) 50 = []"
    by (rule find_path_invalid_goal) simp_all
  have "find_path (Position 1 0) (Position 1 0) (Some []) 50 = [Position 1 0]"
    by (simp add: search_eval)
  then show ?thesis using f
    by (simp add: solve_multi_robot_path_def plan_robot_def idle_robot_def Let_def)
qed

text \<open>
  C5, amended: when the search fails for a robot during a planning pass, the planner
  records for it the one-element path \<open>[robot.position]\<close> and leaves the list of obstacle
  paths as it was: the later robots are planned against the same obstacles as if the
  failed robot were absent, and unless a later robot reuses its id the failed robot's
  entry in the result is \<open>[robot.position]\<close>.
\<close>

theorem failed_search_stays_in_place:
  assumes "sort_key priority robots = pre @ robot # post"
    and "goals (robot_id robot) = Some goal"
    and "foldl (plan_robot goals) (Map.empty, []) pre = (paths, robot_paths_list)"
    and "find_path (robot_position robot) goal (Some robot_paths_list) 50 = []"
  shows "foldl (plan_robot goals) (Map.empty, []) (pre @ [robot])
           = (paths(robot_id robot \<mapsto> [robot_position robot]), robot_paths_list) \<and>
         solve_multi_robot_path robots goals
           = fst (foldl (plan_robot goals)
                    (paths(robot_id robot \<mapsto> [robot_position robot]), robot_paths_list) post) \<and>
         ((\<forall>r\<in>set post. robot_id r \<noteq> robot_id robot) \<longrightarrow>
            solve_multi_robot_path robots goals (robot_id robot) = Some [robot_position robot])"
proof -
  have step: "foldl (plan_robot goals) (Map.empty, []) (pre @ [robot])
           = (paths(robot_id robot \<mapsto> [robot_position robot]), robot_paths_list)"
    using assms(3) plan_robot_failed[where goals=goals and robot=robot, OF assms(2,4)] by simp
  have all: "solve_multi_robot_path robots goals
           = fst (foldl (plan_robot goals)
                    (paths(robot_id robot \<mapsto> [robot_position robot]), robot_paths_list) post)"
    using assms(1,3) plan_robot_failed[where goals=goals and robot=robot, OF assms(2,4)]
    by (simp add: solve_multi_robot_path_def)
  have "solve_multi_robot_path robots goals (robot_id robot) = Some [robot_position robot]"
    if "\<forall>r\<in>set post. robot_id r \<noteq> robot_id robot"
    using foldl_plan_other_id[OF that] by (simp add: all)
  with step all show ?thesis by blast
qed

theorem failed_search_stays_in_place_witness:
  "sort_key priority [idle_robot 3 (Position 1 2) 3, idle_robot 1 (Position 1 0) 1,
                      idle_robot 2 (Position 1 4) 2]
     = [idle_robot 1 (Position 1 0) 1] @ idle_robot 2 (Position 1 4) 2 # [idle_robot 3 (Position 1 2) 3] \<and>
   [1 \<mapsto> Position 1 1, 2 \<mapsto> Position 2 4, 3 \<mapsto> Position 1 1] (robot_id (idle_robot 2 (Position 1 4) 2))
     = Some (Position 2 4) \<and>
   foldl (plan_robot [1 \<mapsto> Position 1 1, 2 \<mapsto> Position 2 4, 3 \<mapsto> Position 1 1]) (Map.empty, [])
     [idle_robot 1 (Position 1 0) 1]
     = ([1 \<mapsto> [Position 1 0, Position 1 1]], [[Position 1 0, Position 1 1]]) \<and>
   find_path (robot_position (idle_robot 2 (Position 1 4) 2)) (Position 2 4)
     (Some [[Position 1 0, Position 1 1]]) 50 = [] \<and>
   solve_multi_robot_path [idle_robot 3 (Position 1 2) 3, idle_robot 1 (Position 1 0) 1,
                           idle_robot 2 (Position 1 4) 2]
     [1 \<mapsto> Position 1 1, 2 \<mapsto> Position 2 4, 3 \<mapsto> Position 1 1] 2 = Some [Position 1 4] \<and>
   solve_multi_robot_path [idle_robot 3 (Position 1 2) 3, idle_robot 1 (Position 1 0) 1,
                           idle_robot 2 (Position 1 4) 2]
     [1 \<mapsto> Position 1 1, 2 \<mapsto> Position 2 4, 3 \<mapsto> Position 1 1] 3
     = Some [Position 1 2, Position 1 2, Position 1 1]"
proof -
  let ?gs = "[1 \<mapsto> Position 1 1, 2 \<mapsto> Position 2 4, 3 \<mapsto> Position 1 1]"
  let ?r1 = "idle_robot 1 (Position 1 0) 1"
  let ?r2 = "idle_robot 2 (Position 1 4) 2"
  let ?r3 = "idle_robot 3 (Position 1 2) 3"
  have s: "sort_key priority [?r3, ?r1, ?r2] = [?r1] @ ?r2 # [?r3]"
    by (simp add: idle_robot_def)
  have g: "?gs (robot_id ?r2) = Some (Position 2 4)" by (simp add: idle_robot_def)
  have st: "foldl (plan_robot ?gs) (Map.empty, []) [?r1]
            = ([1 \<mapsto> [Position 1 0, Position 1 1]], [[Position 1 0, Position 1 1]])"
    by (simp add: plan_robot_def idle_robot_def Let_def run_first)
  have f: "find_path (robot_position ?r2) (Position 2 4) (Some [[Position 1 0, Position 1 1]]) 50 = []"
    by (rule find_path_invalid_goal) (simp_all add: idle_robot_def)
  note t = failed_search_stays_in_place[OF s g st f]
  have "\<forall>r\<in>set [?r3]. robot_id r \<noteq> robot_id ?r2" by (simp add: idle_robot_def)
  with t have "solve_multi_robot_path [?r3, ?r1, ?r2] ?gs (robot_id ?r2) = Some [robot_position ?r2]"
    by blast
  then have two: "solve_multi_robot_path [?r3, ?r1, ?r2] ?gs 2 = Some [Position 1 4]"
    by (simp add: idle_robot_def)
  from t have eq: "solve_multi_robot_path [?r3, ?r1, ?r2] ?gs
      = fst (foldl (plan_robot ?gs)
               ([1 \<mapsto> [Position 1 0, Position 1 1], robot_id ?r2 \<mapsto> [robot_position ?r2]],
                [[Position 1 0, Position 1 1]]) [?r3])"
    by blast
  have three: "solve_multi_robot_path [?r3, ?r1, ?r2] ?gs 3 = Some [Position 1 2, Position 1 2, Position 1 1]"
    unfolding eq by (simp add: idle_robot_def plan_robot_def Let_def run_third)
  from s g st f two three show ?thesis by blast
qed

subsection \<open>C6: kinds of failure\<close>

text \<open>
  C6 as stated: failures come back with distinguished kinds. The search has one failure
  value, the empty list: a horizon that runs out, a start outside the grid and a goal
  outside the grid are returned alike (and there is no node cap and no validity check).
\<close>

theorem search_failures_same_value:
  "find_path (Position 1 0) (Position 1 2) None 1 = [] \<and>
   find_path (Position 2 0) (Position 1 0) None 50 = [] \<and>
   find_path (Position 1 0) (Position 2 0) None 50 = [] \<and>
   is_valid_position (Position 1 0) \<and> is_valid_position (Position 1 2) \<and>
   \<not> is_valid_position (Position 2 0)"
proof -
  have a: "find_path (Position 1 0) (Position 1 2) None 1 = []"
    by (simp add: search_eval)
  have b: "find_path (Position 2 0) (Position 1 0) None 50 = []"
    by (rule find_path_no_moves) (simp_all add: get_valid_moves_def)
  have c: "find_path (Position 1 0) (Position 2 0) None 50 = []"
    by (rule find_path_invalid_goal) simp_all
  show ?thesis using a b c by (simp add: is_valid_position_def GRID_WIDTH_def GRID_HEIGHT_def)
qed

text \<open>
  C6, amended: a search that fails, whether because the time budget is used up, the start
  has no moves or the goal is not a cell of the graph, returns the empty list and raises
  nothing; and the planning step of one robot never changes the path stored for another
  robot id, so a failure does not undo the plans of the robots processed before.
\<close>

theorem search_failure_is_empty_list:
  assumes "start \<noteq> goal"
    and "max_time \<le> 0 \<or> get_valid_moves start = [] \<or> (row goal \<noteq> 0 \<and> row goal \<noteq> 1)"
  shows "find_path start goal other_robot_paths max_time = [] \<and>
         (\<forall>j. j \<noteq> robot_id robot \<longrightarrow> fst (plan_robot goals (paths, robot_paths_list) robot) j = paths j)"
proof -
  have "find_path start goal other_robot_paths max_time = []"
    using assms find_path_no_time find_path_no_moves find_path_invalid_goal by blast
  moreover have "fst (plan_robot goals (paths, robot_paths_list) robot) j = paths j"
    if "j \<noteq> robot_id robot" for j
    using plan_robot_other_id[of robot j goals "(paths, robot_paths_list)"] that by simp
  ultimately show ?thesis by blast
qed

theorem search_failure_is_empty_list_witness:
  "Position 1 0 \<noteq> Position 2 0 \<and> row (Position 2 0) \<noteq> 0 \<and> row (Position 2 0) \<noteq> 1 \<and>
   find_path (Position 1 0) (Position 2 0) (Some [[Position 1 4]]) 50 = [] \<and>
   fst (plan_robot [1 \<mapsto> Position 2 0] ([2 \<mapsto> [Position 1 4]], [[Position 1 4]])
          (idle_robot 1 (Position 1 0) 1)) 2 = Some [Position 1 4]"
  using search_failure_is_empty_list[of "Position 1 0" "Position 2 0" 50 "Some [[Position 1 4]]"
      "idle_robot 1 (Position 1 0) 1" "[1 \<mapsto> Position 2 0]" "[2 \<mapsto> [Position 1 4]]" "[[Position 1 4]]"]
  by (simp add: idle_robot_def)

subsection \<open>C7: lower priorities do not interfere\<close>

text \<open>
  C7 as stated: the path returned for a robot \<open>r\<close> does not depend on the presence of
  robots of strictly lower priority. The result is a dictionary keyed by robot id, and
  every planned robot writes \<open>paths[robot.id]\<close>: a robot of lower priority that carries
  the id of \<open>r\<close> is planned later and overwrites the entry of \<open>r\<close>.
\<close>

theorem shared_id_overwrites_entry:
  "priority (idle_robot 1 (Position 1 0) 1) < priority (idle_robot 1 (Position 1 2) 2) \<and>
   robot_id (idle_robot 1 (Position 1 0) 1) = robot_id (idle_robot 1 (Position 1 2) 2) \<and>
   solve_multi_robot_path [idle_robot 1 (Position 1 0) 1] [1 \<mapsto> Position 1 1] 1
     = Some [Position 1 0, Position 1 1] \<and>
   solve_multi_robot_path [idle_robot 1 (Position 1 0) 1, idle_robot 1 (Position 1 2) 2]
     [1 \<mapsto> Position 1 1] 1
     = Some [Position 1 2, Position 1 2, Position 1 1] \<and>
   solve_multi_robot_path [idle_robot 1 (Position 1 0) 1] [1 \<mapsto> Position 1 1] 1
     \<noteq> solve_multi_robot_path [idle_robot 1 (Position 1 0) 1, idle_robot 1 (Position 1 2) 2]
         [1 \<mapsto> Position 1 1] 1"
  by (simp add: solve_multi_robot_path_def plan_robot_def idle_robot_def Let_def
      run_first run_third)

text \<open>
  C7, amended: when the robot ids of the input list are pairwise distinct, the path
  returned for a robot \<open>r\<close> of the list is the same whether or not robots of strictly lower
  priority (larger priority number) are in the list: removing any set of them
  (\<open>filter keep\<close>) leaves the entry of \<open>r\<close> unchanged.
\<close>

theorem lower_priority_robots_do_not_interfere:
  assumes "distinct (map robot_id robots)" and "r \<in> set robots"
    and "\<forall>x\<in>set robots. \<not> keep x \<longrightarrow> priority r < priority x"
  shows "solve_multi_robot_path (filter keep robots) goals (robot_id r)
         = solve_multi_robot_path robots goals (robot_id r)"
proof -
  define S where "S = sort_key priority robots"
  define A where "A = filter (\<lambda>x. priority x \<le> priority r) S"
  define B where "B = filter (\<lambda>x. priority r < priority x) S"
  have setS: "set S = set robots" by (simp add: S_def)
  have S: "S = A @ B" unfolding A_def B_def S_def by (rule sorted_split) simp
  have fS: "sort_key priority (filter keep robots) = filter keep S"
    unfolding S_def by (rule filter_sort[symmetric])
  have "\<forall>x\<in>set A. keep x" using assms(3) setS by (auto simp: A_def)
  then have fA: "filter keep A = A" by (simp add: filter_id_conv)
  have idB: "\<forall>x\<in>set B. robot_id x \<noteq> robot_id r"
  proof
    fix x assume x: "x \<in> set B"
    then have "x \<in> set robots" "priority r < priority x" using setS by (auto simp: B_def)
    then have "x \<noteq> r" by auto
    moreover have "inj_on robot_id (set robots)" using assms(1) by (simp add: distinct_map)
    ultimately show "robot_id x \<noteq> robot_id r"
      using assms(2) \<open>x \<in> set robots\<close> by (auto dest: inj_onD)
  qed
  then have idfB: "\<forall>x\<in>set (filter keep B). robot_id x \<noteq> robot_id r" by simp
  let ?s = "foldl (plan_robot goals) (Map.empty, []) A"
  have "solve_multi_robot_path (filter keep robots) goals (robot_id r)
        = fst (foldl (plan_robot goals) ?s (filter keep B)) (robot_id r)"
    by (simp add: solve_multi_robot_path_def fS S fA)
  also have "\<dots> = fst ?s (robot_id r)" by (rule foldl_plan_other_id[OF idfB])
  also have "\<dots> = fst (foldl (plan_robot goals) ?s B) (robot_id r)"
    by (rule foldl_plan_other_id[OF idB, symmetric])
  also have "\<dots> = solve_multi_robot_path robots goals (robot_id r)"
    using S by (simp add: solve_multi_robot_path_def S_def)
  finally show ?thesis .
qed

theorem lower_priority_robots_do_not_interfere_witness:
  "distinct (map robot_id [idle_robot 2 (Position 1 1) 2, idle_robot 1 (Position 1 0) 1]) \<and>
   idle_robot 1 (Position 1 0) 1 \<in> set [idle_robot 2 (Position 1 1) 2, idle_robot 1 (Position 1 0) 1] \<and>
   filter (\<lambda>x. priority x \<le> 1) [idle_robot 2 (Position 1 1) 2, idle_robot 1 (Position 1 0) 1]
     = [idle_robot 1 (Position 1 0) 1] \<and>
   solve_multi_robot_path [idle_robot 1 (Position 1 0) 1]
     [1 \<mapsto> Position 1 1, 2 \<mapsto> Position 1 0] 1 = Some [Position 1 0, Position 1 1] \<and>
   solve_multi_robot_path [idle_robot 2 (Position 1 1) 2, idle_robot 1 (Position 1 0) 1]
     [1 \<mapsto> Position 1 1, 2 \<mapsto> Position 1 0] 1 = Some [Position 1 0, Position 1 1]"
proof -
  let ?r1 = "idle_robot 1 (Position 1 0) 1"
  let ?r2 = "idle_robot 2 (Position 1 1) 2"
  let ?gs = "[1 \<mapsto> Position 1 1, 2 \<mapsto> Position 1 0]"
  have d: "distinct (map robot_id [?r2, ?r1])" by (simp add: idle_robot_def)
  have m: "?r1 \<in> set [?r2, ?r1]" by simp
  have k: "\<forall>x\<in>set [?r2, ?r1]. \<not> priority x \<le> 1 \<longrightarrow> priority ?r1 < priority x"
    by (simp add: idle_robot_def)
  have f: "filter (\<lambda>x. priority x \<le> 1) [?r2, ?r1] = [?r1]" by (simp add: idle_robot_def)
  have id1: "robot_id ?r1 = 1" by (simp add: idle_robot_def)
  have full: "solve_multi_robot_path [?r2, ?r1] ?gs 1 = Some [Position 1 0, Position 1 1]"
    by (simp add: swap_run)
  from lower_priority_robots_do_not_interfere[OF d m k, of ?gs]
  have "solve_multi_robot_path [?r1] ?gs 1 = solve_multi_robot_path [?r2, ?r1] ?gs 1"
    unfolding f id1 .
  with d m f full show ?thesis by simp
qed

subsection \<open>C8: reserving twice\<close>

text \<open>
  C8: for every table, path, start time and agent id, reserving the same path a second
  time changes no answer of \<open>is_vertex_free\<close> or \<open>is_edge_free\<close>, whatever the query.
\<close>

theorem reserve_path_idempotent:
  "is_vertex_free (reserve_path (reserve_path self pth start_time agent_id) pth start_time agent_id)
       x y t querying_agent
     = is_vertex_free (reserve_path self pth start_time agent_id) x y t querying_agent \<and>
   is_edge_free (reserve_path (reserve_path self pth start_time agent_id) pth start_time agent_id)
       from_pos to_pos t querying_agent
     = is_edge_free (reserve_path self pth start_time agent_id) from_pos to_pos t querying_agent"
  by (simp add: reserve_path_twice)

theorem reserve_path_idempotent_witness:
  "is_vertex_free (reserve_path (reserve_path empty_table [(0, 0), (0, 1)] 0 7) [(0, 0), (0, 1)] 0 7) 0 1 1 8
     = is_vertex_free (reserve_path empty_table [(0, 0), (0, 1)] 0 7) 0 1 1 8 \<and>
   \<not> is_vertex_free (reserve_path empty_table [(0, 0), (0, 1)] 0 7) 0 1 1 8 \<and>
   is_edge_free (reserve_path (reserve_path empty_table [(0, 0), (0, 1)] 0 7) [(0, 0), (0, 1)] 0 7)
       (0, 1) (0, 0) 1 8
     = is_edge_free (reserve_path empty_table [(0, 0), (0, 1)] 0 7) (0, 1) (0, 0) 1 8 \<and>
   \<not> is_edge_free (reserve_path empty_table [(0, 0), (0, 1)] 0 7) (0, 1) (0, 0) 1 8"
  using reserve_path_idempotent[of empty_table "[(0, 0), (0, 1)]" 0 7 0 1 1 8 "(0, 1)" "(0, 0)"]
  by (simp add: is_vertex_free_def is_edge_free_def reserve_path_tables empty_table_def)

subsection \<open>C9: the order of the open set\<close>

text \<open>
  C9 as stated: among nodes of equal f the open set pops the one preferred by g, then by
  position. \<open>AStarNode.__lt__\<close> compares f alone, so among equal f the heap returns
  whichever node its layout has in front: of the two nodes below (both occur together in
  the open set of the search from cell 1 to cell 0 run above), the one pushed first is
  popped first, in either order of pushing.
\<close>

theorem pop_order_follows_insertion:
  "f_cost \<lparr>position = Position 0 1, time = 1, g_cost = 1, f_cost = 3, path = [Position 1 1]\<rparr>
     = f_cost \<lparr>position = Position 1 1, time = 2, g_cost = 2, f_cost = 3,
               path = [Position 1 1, Position 1 2]\<rparr> \<and>
   g_cost \<lparr>position = Position 0 1, time = 1, g_cost = 1, f_cost = 3, path = [Position 1 1]\<rparr>
     < g_cost \<lparr>position = Position 1 1, time = 2, g_cost = 2, f_cost = 3,
               path = [Position 1 1, Position 1 2]\<rparr> \<and>
   heappop (heappush (heappush []
       \<lparr>position = Position 0 1, time = 1, g_cost = 1, f_cost = 3, path = [Position 1 1]\<rparr>)
       \<lparr>position = Position 1 1, time = 2, g_cost = 2, f_cost = 3, path = [Position 1 1, Position 1 2]\<rparr>)
     = Some (\<lparr>position = Position 0 1, time = 1, g_cost = 1, f_cost = 3, path = [Position 1 1]\<rparr>,
             [\<lparr>position = Position 1 1, time = 2, g_cost = 2, f_cost = 3,
               path = [Position 1 1, Position 1 2]\<rparr>]) \<and>
   heappop (heappush (heappush []
       \<lparr>position = Position 1 1, time = 2, g_cost = 2, f_cost = 3, path = [Position 1 1, Position 1 2]\<rparr>)
       \<lparr>position = Position 0 1, time = 1, g_cost = 1, f_cost = 3, path = [Position 1 1]\<rparr>)
     = Some (\<lparr>position = Position 1 1, time = 2, g_cost = 2, f_cost = 3,
              path = [Position 1 1, Position 1 2]\<rparr>,
             [\<lparr>position = Position 0 1, time = 1, g_cost = 1, f_cost = 3, path = [Position 1 1]\<rparr>])"
  by (simp add: heappush_def heappop_def siftdown_def siftdown_loop.simps siftup_def
      siftup_loop.simps lt_def Let_def)

text \<open>
  C9, amended: the open set of the search is a binary heap ordered by f-cost only. It is
  a heap when the start node is pushed, stays one through every expansion and every pop,
  and a pop returns a node whose f-cost is least among all nodes of the open set; which
  of several nodes of that least f is returned depends on the heap's layout, not on g or
  on the position.
\<close>

theorem open_set_least_f_first:
  "heap_ok (heappush [] start_node) \<and>
   (heap_ok open_set \<longrightarrow>
      heap_ok (expand goal others closed_set current moves open_set)) \<and>
   (heap_ok open_set \<and> heappop open_set = Some (node, rest) \<longrightarrow>
      heap_ok rest \<and> list_all (\<lambda>m. f_cost node \<le> f_cost m) open_set)"
proof -
  have "heap_ok []" by (simp add: heap_ok_def)
  then have "heap_ok (heappush [] start_node)" by (rule heap_ok_heappush)
  then show ?thesis using heap_ok_expand heappop_ok by blast
qed

theorem open_set_least_f_first_witness:
  "heap_ok [\<lparr>position = Position 1 2, time = 1, g_cost = 1, f_cost = 3, path = [Position 1 1]\<rparr>,
            \<lparr>position = Position 0 1, time = 1, g_cost = 1, f_cost = 3, path = [Position 1 1]\<rparr>] \<and>
   expand (Position 1 0) [[Position 1 0, Position 1 1]] {(Position 1 1, 0)}
       \<lparr>position = Position 1 1, time = 0, g_cost = 0, f_cost = 1, path = []\<rparr>
       (get_valid_moves (Position 1 1)) []
     = [\<lparr>position = Position 1 2, time = 1, g_cost = 1, f_cost = 3, path = [Position 1 1]\<rparr>,
        \<lparr>position = Position 0 1, time = 1, g_cost = 1, f_cost = 3, path = [Position 1 1]\<rparr>] \<and>
   heappop [\<lparr>position = Position 1 2, time = 1, g_cost = 1, f_cost = 3, path = [Position 1 1]\<rparr>,
            \<lparr>position = Position 0 1, time = 1, g_cost = 1, f_cost = 3, path = [Position 1 1]\<rparr>]
     = Some (\<lparr>position = Position 1 2, time = 1, g_cost = 1, f_cost = 3, path = [Position 1 1]\<rparr>,
             [\<lparr>position = Position 0 1, time = 1, g_cost = 1, f_cost = 3, path = [Position 1 1]\<rparr>]) \<and>
   heap_ok [\<lparr>position = Position 0 1, time = 1, g_cost = 1, f_cost = 3, path = [Position 1 1]\<rparr>] \<and>
   list_all (\<lambda>m. f_cost \<lparr>position = Position 1 2, time = 1, g_cost = 1, f_cost = 3,
                           path = [Position 1 1]\<rparr> \<le> f_cost m)
     [\<lparr>position = Position 1 2, time = 1, g_cost = 1, f_cost = 3, path = [Position 1 1]\<rparr>,
      \<lparr>position = Position 0 1, time = 1, g_cost = 1, f_cost = 3, path = [Position 1 1]\<rparr>]"
proof -
  let ?s = "\<lparr>position = Position 1 1, time = 0, g_cost = 0, f_cost = 1, path = []\<rparr>"
  let ?a = "\<lparr>position = Position 1 2, time = 1, g_cost = 1, f_cost = 3, path = [Position 1 1]\<rparr>"
  let ?b = "\<lparr>position = Position 0 1, time = 1, g_cost = 1, f_cost = 3, path = [Position 1 1]\<rparr>"
  have e: "expand (Position 1 0) [[Position 1 0, Position 1 1]] {(Position 1 1, 0)} ?s
             (get_valid_moves (Position 1 1)) [] = [?a, ?b]"
    by (simp add: search_eval)
  have p: "heappop [?a, ?b] = Some (?a, [?b])"
    by (simp add: search_eval)
  have ok0: "heap_ok []" by (simp add: heap_ok_def)
  note t = open_set_least_f_first[of ?s "[]" "Position 1 0" "[[Position 1 0, Position 1 1]]"
      "{(Position 1 1, 0)}" ?s "get_valid_moves (Position 1 1)"]
  have ok1: "heap_ok [?a, ?b]" using t ok0 unfolding e by blast
  note t2 = open_set_least_f_first[of ?s "[?a, ?b]" "Position 1 0" "[[Position 1 0, Position 1 1]]"
      "{(Position 1 1, 0)}" ?s "get_valid_moves (Position 1 1)" ?a "[?b]"]
  have "heap_ok [?b] \<and> list_all (\<lambda>m. f_cost ?a \<le> f_cost m) [?a, ?b]"
    using t2 ok1 p by blast
  with ok1 e p show ?thesis by blast
qed

subsection \<open>C10: a search whose start is its goal\<close>

text \<open>
  C10: for every position \<open>g\<close>, every list of other paths (or none) and every \<open>max_time\<close>,
  \<open>find_path(g, g, ...)\<close> returns \<open>[g]\<close>: the start node is popped and recognised as the goal
  before any collision check, whatever the other paths occupy.
\<close>

theorem find_path_start_is_goal: "find_path g g other_robot_paths max_time = [g]"
proof -
  let ?n = "\<lparr>position = g, time = 0, g_cost = 0, f_cost = heuristic g g, path = []\<rparr>"
  have push: "heappush [] ?n = [?n]"
    by (simp add: heappush_def siftdown_def siftdown_loop.simps)
  have pop: "heappop [?n] = Some (?n, [])" by (simp add: heappop_def)
  show ?thesis
    unfolding find_path_def Let_def push
    by (subst find_path_loop.simps) (simp add: pop)
qed

theorem find_path_start_is_goal_witness:
  "find_path (Position 0 2) (Position 0 2) (Some [[Position 0 2, Position 0 2]]) 50 = [Position 0 2]"
  by (rule find_path_start_is_goal)

end
